theory Spec2Isabelle
  imports Complex_Main "HOL-Library.Word" "HOL-Library.Signed_Division" "HOL-Library.Monad_Syntax"
begin

unbundle bit_operations_syntax

section \<open>Errors\<close>

text \<open>
  What a caller of the public operations can observe instead of a result.
  \<open>OutOfRange\<close> is the \<^verbatim>\<open>std::out_of_range\<close> thrown by the argument checks of the
  public operations (surfaced as an index error).  \<open>EngineFault\<close> stands for any failure
  inside the tree engine: an exception thrown there or a null pointer dereferenced.
\<close>

datatype error = OutOfRange | EngineFault

definition lift :: "'a option \<Rightarrow> error + 'a" where
  "lift r = (case r of None \<Rightarrow> Inl EngineFault | Some x \<Rightarrow> Inr x)"

subsection \<open>Hashing an iterable\<close>

text \<open>
  \<^verbatim>\<open>hash_combine(seed, value)\<close> on \<^verbatim>\<open>size_t\<close>, taken as 64 bits wide; the first argument
  here is the element's own hash \<^verbatim>\<open>std::hash<Container>{}(value)\<close>.
\<close>

definition hash_combine :: "64 word \<Rightarrow> 64 word \<Rightarrow> 64 word" where
  "hash_combine seed hv = hv + 0x9e3779b9 + push_bit 6 seed + drop_bit 2 seed"

section \<open>Utilities (\<^verbatim>\<open>_utility.hpp\<close>)\<close>

subsection \<open>Three-way slice adjustment\<close>

text \<open>
  \<^verbatim>\<open>template<typename T> T adjust_index(T length, T& start, T& stop, T& step)\<close>.
  The repository instantiates \<open>T\<close> with \<^verbatim>\<open>ssize_t\<close> (its tests) and \<^verbatim>\<open>size_t\<close> (the
  sequence); both are taken as 64 bits wide, and a value of \<open>T\<close> is a 64-bit word.
  The flag \<open>sign\<close> is \<^verbatim>\<open>std::is_signed<T>::value\<close>: it selects the two's complement
  reading of the words in comparisons and divisions.  Arithmetic wraps around, also
  for the signed type, as the two's complement targets of the library compute it.
\<close>

type_synonym T = "64 word"








section \<open>The sequence engine (\<^verbatim>\<open>_psequence.hpp\<close>)\<close>

subsection \<open>Data model\<close>

text \<open>
  \<^verbatim>\<open>struct Node : std::variant<Value, Branch>\<close>, where a \<^verbatim>\<open>Branch\<close> caches its size and
  holds two or three children (\<^verbatim>\<open>items[2]\<close> may be null).  A nullable \<^verbatim>\<open>NodePtr\<close> is an
  \<open>option\<close>.  Sizes are \<^verbatim>\<open>size_t\<close> counts of stored elements, modelled as \<open>nat\<close>.
\<close>

datatype 'a node = Leaf 'a | Branch nat "'a node" "'a node" "'a node option"

text \<open>
  \<^verbatim>\<open>struct Digit { size; order; items[4] }\<close>.  The list holds the first \<^verbatim>\<open>order\<close> slots
  of \<^verbatim>\<open>items\<close>; the remaining slots of the array are null, so \<^verbatim>\<open>order\<close> is the length
  of the list and reading a slot beyond it is a null dereference.
\<close>

datatype 'a digit = Digit (dsize: nat) (ditems: "'a node list")

datatype 'a tree = Empty | Single "'a node" | Deep nat "'a digit" "'a tree" "'a digit"

text \<open>
  In the functions below \<open>None\<close> stands for every way the source fails to return:
  a \<^verbatim>\<open>throw\<close> of \<^verbatim>\<open>std::logic_error\<close> or \<^verbatim>\<open>std::out_of_range\<close> inside the engine and
  the dereference of a null pointer.  \<^verbatim>\<open>assert\<close> is a debugging aid that is compiled
  out of release builds and is not a branch of the model; the conditions asserted by
  the constructors are part of the invariant \<open>wf_tree\<close> below.
\<close>

fun nsize :: "'a node \<Rightarrow> nat" where
  "nsize (Leaf v) = 1"
| "nsize (Branch sz n0 n1 n2) = sz"

fun ndepth :: "'a node \<Rightarrow> nat" where
  "ndepth (Leaf v) = 0"
| "ndepth (Branch sz n0 n1 n2) = ndepth n0 + 1"

abbreviation order :: "'a digit \<Rightarrow> nat" where
  "order d \<equiv> length (ditems d)"

fun tsize :: "'a tree \<Rightarrow> nat" where
  "tsize Empty = 0"
| "tsize (Single n) = nsize n"
| "tsize (Deep sz l m r) = sz"

text \<open>The constructors that compute the cached size from their arguments.\<close>

definition Node2 :: "'a node \<Rightarrow> 'a node \<Rightarrow> 'a node" where
  "Node2 n0 n1 = Branch (nsize n0 + nsize n1) n0 n1 None"

definition Node3 :: "'a node \<Rightarrow> 'a node \<Rightarrow> 'a node \<Rightarrow> 'a node" where
  "Node3 n0 n1 n2 = Branch (nsize n0 + nsize n1 + nsize n2) n0 n1 (Some n2)"

definition Digit1 :: "'a node \<Rightarrow> 'a digit" where
  "Digit1 n0 = Digit (nsize n0) [n0]"

definition Digit2 :: "'a node \<Rightarrow> 'a node \<Rightarrow> 'a digit" where
  "Digit2 n0 n1 = Digit (nsize n0 + nsize n1) [n0, n1]"

definition Digit3 :: "'a node \<Rightarrow> 'a node \<Rightarrow> 'a node \<Rightarrow> 'a digit" where
  "Digit3 n0 n1 n2 = Digit (nsize n0 + nsize n1 + nsize n2) [n0, n1, n2]"

definition Digit4 :: "'a node \<Rightarrow> 'a node \<Rightarrow> 'a node \<Rightarrow> 'a node \<Rightarrow> 'a digit" where
  "Digit4 n0 n1 n2 n3 = Digit (nsize n0 + nsize n1 + nsize n2 + nsize n3) [n0, n1, n2, n3]"

definition Deep3 :: "'a digit \<Rightarrow> 'a tree \<Rightarrow> 'a digit \<Rightarrow> 'a tree" where
  "Deep3 l m r = Deep (dsize l + tsize m + dsize r) l m r"

subsection \<open>Elements in order, and the structural invariant\<close>

text \<open>
  \<^verbatim>\<open>check\<close> of \<^verbatim>\<open>tests/psequence_test.cpp\<close> walks a sequence and collects its elements
  in order (\<^verbatim>\<open>tolist\<close>); with \<^verbatim>\<open>Assert\<close> it also checks the shape: a value sits at
  depth 0, a branch above depth 0, a branch's cached size is the number of elements
  below it, a digit has between one and four nodes, and a deep tree's cached size is
  the number of its elements.  The middle of a deep tree is checked one level deeper.
  The size of a digit is required to be consistent as well (specification, section 3).
\<close>

fun nlist :: "'a node \<Rightarrow> 'a list" where
  "nlist (Leaf v) = [v]"
| "nlist (Branch sz n0 n1 n2) =
     nlist n0 @ nlist n1 @ (case n2 of None \<Rightarrow> [] | Some n \<Rightarrow> nlist n)"

definition nslist :: "'a node list \<Rightarrow> 'a list" where
  "nslist ns = concat (map nlist ns)"

definition nssize :: "'a node list \<Rightarrow> nat" where
  "nssize ns = sum_list (map nsize ns)"

fun dlist :: "'a digit \<Rightarrow> 'a list" where
  "dlist (Digit sz ns) = nslist ns"

fun tlist :: "'a tree \<Rightarrow> 'a list" where
  "tlist Empty = []"
| "tlist (Single n) = nlist n"
| "tlist (Deep sz l m r) = dlist l @ tlist m @ dlist r"

fun wf_node :: "nat \<Rightarrow> 'a node \<Rightarrow> bool" where
  "wf_node d (Leaf v) = (d = 0)"
| "wf_node d (Branch sz n0 n1 n2) =
     (d > 0 \<and> wf_node (d - 1) n0 \<and> wf_node (d - 1) n1 \<and>
      (case n2 of None \<Rightarrow> True | Some n \<Rightarrow> wf_node (d - 1) n) \<and>
      sz = nsize n0 + nsize n1 + (case n2 of None \<Rightarrow> 0 | Some n \<Rightarrow> nsize n))"

fun wf_digit :: "nat \<Rightarrow> 'a digit \<Rightarrow> bool" where
  "wf_digit d (Digit sz ns) =
     (0 < length ns \<and> length ns \<le> 4 \<and> list_all (wf_node d) ns \<and> sz = nssize ns)"

fun wf_tree :: "nat \<Rightarrow> 'a tree \<Rightarrow> bool" where
  "wf_tree d Empty = True"
| "wf_tree d (Single n) = wf_node d n"
| "wf_tree d (Deep sz l m r) =
     (wf_digit d l \<and> wf_tree (d + 1) m \<and> wf_digit d r \<and>
      sz = dsize l + tsize m + dsize r)"

text \<open>A \<^verbatim>\<open>Sequence\<close> owns a tree whose nodes are values: its depth is 0.\<close>

type_synonym 'a sequence = "'a tree"

definition wf_seq :: "'a sequence \<Rightarrow> bool" where
  "wf_seq s = wf_tree 0 s"

subsection \<open>Digits: growing and shrinking\<close>

text \<open>\<^verbatim>\<open>Digit::from(const NodePtr&)\<close>: the children of a branch as a digit.\<close>

fun Digit_from_node :: "'a node \<Rightarrow> 'a digit option" where
  "Digit_from_node (Leaf v) = None"
| "Digit_from_node (Branch sz n0 n1 None) = Some (Digit sz [n0, n1])"
| "Digit_from_node (Branch sz n0 n1 (Some n2)) = Some (Digit sz [n0, n1, n2])"

text \<open>\<^verbatim>\<open>Digit::from(order, const NodePtr*)\<close>, given the \<^verbatim>\<open>order\<close> nodes read.\<close>

fun Digit_from :: "'a node list \<Rightarrow> 'a digit option" where
  "Digit_from [n0] = Some (Digit1 n0)"
| "Digit_from [n0, n1] = Some (Digit2 n0 n1)"
| "Digit_from [n0, n1, n2] = Some (Digit3 n0 n1 n2)"
| "Digit_from [n0, n1, n2, n3] = Some (Digit4 n0 n1 n2 n3)"
| "Digit_from ns = None"

text \<open>\<^verbatim>\<open>Digit::from(const std::pair<NodePtr, std::optional<NodePtr>>&)\<close>.\<close>

fun Digit_from_merge :: "'a node \<times> 'a node option \<Rightarrow> 'a digit" where
  "Digit_from_merge (n, None) = Digit1 n"
| "Digit_from_merge (n, Some extra) = Digit2 n extra"

text \<open>
  \<^verbatim>\<open>Digit::push_front\<close> passes \<^verbatim>\<open>items[0..2]\<close> on; it is called on digits of order
  below four.
\<close>

fun Digit_push_front :: "'a digit \<Rightarrow> 'a node \<Rightarrow> 'a digit" where
  "Digit_push_front (Digit sz ns) n = Digit (sz + nsize n) (n # take 3 ns)"

fun Digit_push_back :: "'a digit \<Rightarrow> 'a node \<Rightarrow> 'a digit option" where
  "Digit_push_back (Digit sz [n0]) n = Some (Digit (sz + nsize n) [n0, n])"
| "Digit_push_back (Digit sz [n0, n1]) n = Some (Digit (sz + nsize n) [n0, n1, n])"
| "Digit_push_back (Digit sz [n0, n1, n2]) n = Some (Digit (sz + nsize n) [n0, n1, n2, n])"
| "Digit_push_back (Digit sz ns) n = None"

fun Digit_view_front :: "'a digit \<Rightarrow> ('a node \<times> 'a digit) option" where
  "Digit_view_front (Digit sz [n0, n1]) = Some (n0, Digit1 n1)"
| "Digit_view_front (Digit sz [n0, n1, n2]) = Some (n0, Digit2 n1 n2)"
| "Digit_view_front (Digit sz [n0, n1, n2, n3]) = Some (n0, Digit (sz - nsize n0) [n1, n2, n3])"
| "Digit_view_front (Digit sz ns) = None"

fun Digit_view_back :: "'a digit \<Rightarrow> ('a digit \<times> 'a node) option" where
  "Digit_view_back (Digit sz [n0, n1]) = Some (Digit1 n0, n1)"
| "Digit_view_back (Digit sz [n0, n1, n2]) = Some (Digit2 n0 n1, n2)"
| "Digit_view_back (Digit sz [n0, n1, n2, n3]) = Some (Digit (sz - nsize n3) [n0, n1, n2], n3)"
| "Digit_view_back (Digit sz ns) = None"

subsection \<open>Trees: both ends and concatenation\<close>

text \<open>\<^verbatim>\<open>Tree::from(const DigitPtr&)\<close>.\<close>

fun Tree_from_digit :: "'a digit \<Rightarrow> 'a tree option" where
  "Tree_from_digit (Digit sz [n0]) = Some (Single n0)"
| "Tree_from_digit (Digit sz [n0, n1]) = Some (Deep sz (Digit1 n0) Empty (Digit1 n1))"
| "Tree_from_digit (Digit sz [n0, n1, n2]) = Some (Deep sz (Digit2 n0 n1) Empty (Digit1 n2))"
| "Tree_from_digit (Digit sz [n0, n1, n2, n3]) =
     Some (Deep sz (Digit2 n0 n1) Empty (Digit2 n2 n3))"
| "Tree_from_digit (Digit sz ns) = None"

text \<open>\<^verbatim>\<open>Tree::from(uint_least8_t count, const NodePtr*)\<close>, given the \<^verbatim>\<open>count\<close> nodes read.\<close>

fun Tree_from :: "'a node list \<Rightarrow> 'a tree option" where
  "Tree_from [] = Some Empty"
| "Tree_from [n0] = Some (Single n0)"
| "Tree_from [n0, n1] = Some (Deep3 (Digit1 n0) Empty (Digit1 n1))"
| "Tree_from [n0, n1, n2] = Some (Deep3 (Digit1 n0) Empty (Digit2 n1 n2))"
| "Tree_from [n0, n1, n2, n3] = Some (Deep3 (Digit2 n0 n1) Empty (Digit2 n2 n3))"
| "Tree_from ns = None"

text \<open>\<^verbatim>\<open>Tree::from(const std::pair<NodePtr, std::optional<NodePtr>>&)\<close>.\<close>

fun Tree_from_merge :: "'a node \<times> 'a node option \<Rightarrow> 'a tree" where
  "Tree_from_merge (n, None) = Single n"
| "Tree_from_merge (n, Some extra) =
     Deep (nsize n + nsize extra) (Digit1 n) Empty (Digit1 extra)"

fun Tree_push_front :: "'a tree \<Rightarrow> 'a node \<Rightarrow> 'a tree option" where
  "Tree_push_front Empty x = Some (Single x)"
| "Tree_push_front (Single n) x =
     Some (Deep (nsize n + nsize x) (Digit1 x) Empty (Digit1 n))"
| "Tree_push_front (Deep sz l m r) x =
     (if order l < 4 then Some (Deep (sz + nsize x) (Digit_push_front l x) m r)
      else case ditems l of
        [i0, i1, i2, i3] \<Rightarrow>
          do { m' \<leftarrow> Tree_push_front m (Branch (dsize l - nsize i0) i1 i2 (Some i3));
               Some (Deep (sz + nsize x) (Digit2 x i0) m' r) }
      | _ \<Rightarrow> None)"

fun Tree_push_back :: "'a tree \<Rightarrow> 'a node \<Rightarrow> 'a tree option" where
  "Tree_push_back Empty x = Some (Single x)"
| "Tree_push_back (Single n) x =
     Some (Deep (nsize n + nsize x) (Digit1 n) Empty (Digit1 x))"
| "Tree_push_back (Deep sz l m r) x =
     (if order r < 4 then
        do { r' \<leftarrow> Digit_push_back r x; Some (Deep (sz + nsize x) l m r') }
      else case ditems r of
        [i0, i1, i2, i3] \<Rightarrow>
          do { m' \<leftarrow> Tree_push_back m (Branch (dsize r - nsize i3) i0 i1 (Some i2));
               Some (Deep (sz + nsize x) l m' (Digit2 i3 x)) }
      | _ \<Rightarrow> None)"

text \<open>
  \<^verbatim>\<open>Tree::view_front\<close> and \<^verbatim>\<open>Tree::pull_left\<close> call each other, and so do
  \<^verbatim>\<open>Tree::view_back\<close> and \<^verbatim>\<open>Tree::pull_right\<close>.
\<close>

function Tree_view_front :: "'a tree \<Rightarrow> ('a node \<times> 'a tree) option"
  and Tree_pull_left :: "'a tree \<Rightarrow> 'a digit \<Rightarrow> 'a tree option" where
  "Tree_view_front Empty = None"
| "Tree_view_front (Single n) = Some (n, Empty)"
| "Tree_view_front (Deep sz l m r) =
     (case ditems l of
        [i0] \<Rightarrow> do { t \<leftarrow> Tree_pull_left m r; Some (i0, t) }
      | _ \<Rightarrow> do { (h, l') \<leftarrow> Digit_view_front l;
                  Some (h, Deep (sz - nsize h) l' m r) })"
| "Tree_pull_left m r =
     (if m = Empty then Tree_from_digit r
      else do { (n, t) \<leftarrow> Tree_view_front m;
                d \<leftarrow> Digit_from_node n;
                Some (Deep (tsize m + dsize r) d t r) })"
  by pat_completeness auto
termination
  by (relation "measure (\<lambda>x. case x of Inl t \<Rightarrow> 2 * size t | Inr (m, r) \<Rightarrow> 2 * size m + 1)")
    auto

function Tree_view_back :: "'a tree \<Rightarrow> ('a tree \<times> 'a node) option"
  and Tree_pull_right :: "'a tree \<Rightarrow> 'a digit \<Rightarrow> 'a tree option" where
  "Tree_view_back Empty = None"
| "Tree_view_back (Single n) = Some (Empty, n)"
| "Tree_view_back (Deep sz l m r) =
     (case ditems r of
        [i0] \<Rightarrow> do { t \<leftarrow> Tree_pull_right m l; Some (t, i0) }
      | _ \<Rightarrow> do { (r', x) \<leftarrow> Digit_view_back r;
                  Some (Deep (sz - nsize x) l m r', x) })"
| "Tree_pull_right m l =
     (if m = Empty then Tree_from_digit l
      else do { (t, n) \<leftarrow> Tree_view_back m;
                d \<leftarrow> Digit_from_node n;
                Some (Deep (tsize m + dsize l) l t d) })"
  by pat_completeness auto
termination
  by (relation "measure (\<lambda>x. case x of Inl t \<Rightarrow> 2 * size t | Inr (m, l) \<Rightarrow> 2 * size m + 1)")
    auto

text \<open>
  The \<^verbatim>\<open>switch(count)\<close> of \<^verbatim>\<open>Tree::append\<close>: the two to eight nodes between the two
  middles are packed into branches and pushed onto the front of the right middle,
  the last group first.
\<close>

fun append_mid :: "'a node list \<Rightarrow> 'a tree \<Rightarrow> 'a tree option" where
  "append_mid [m0, m1] t = Tree_push_front t (Node2 m0 m1)"
| "append_mid [m0, m1, m2] t = Tree_push_front t (Node3 m0 m1 m2)"
| "append_mid [m0, m1, m2, m3] t =
     do { t1 \<leftarrow> Tree_push_front t (Node2 m2 m3); Tree_push_front t1 (Node2 m0 m1) }"
| "append_mid [m0, m1, m2, m3, m4] t =
     do { t1 \<leftarrow> Tree_push_front t (Node3 m2 m3 m4); Tree_push_front t1 (Node2 m0 m1) }"
| "append_mid [m0, m1, m2, m3, m4, m5] t =
     do { t1 \<leftarrow> Tree_push_front t (Node3 m3 m4 m5); Tree_push_front t1 (Node3 m0 m1 m2) }"
| "append_mid [m0, m1, m2, m3, m4, m5, m6] t =
     do { t1 \<leftarrow> Tree_push_front t (Node3 m4 m5 m6);
          t2 \<leftarrow> Tree_push_front t1 (Node2 m2 m3);
          Tree_push_front t2 (Node2 m0 m1) }"
| "append_mid [m0, m1, m2, m3, m4, m5, m6, m7] t =
     do { t1 \<leftarrow> Tree_push_front t (Node3 m5 m6 m7);
          t2 \<leftarrow> Tree_push_front t1 (Node3 m2 m3 m4);
          Tree_push_front t2 (Node2 m0 m1) }"
| "append_mid ms t = None"

fun Tree_append :: "'a tree \<Rightarrow> 'a tree \<Rightarrow> 'a tree option" where
  "Tree_append Empty that = Some that"
| "Tree_append (Single n) that = Tree_push_front that n"
| "Tree_append (Deep sl ll lm lr) Empty = Some (Deep sl ll lm lr)"
| "Tree_append (Deep sl ll lm lr) (Single n) = Tree_push_back (Deep sl ll lm lr) n"
| "Tree_append (Deep sl ll lm lr) (Deep sr rl rm rr) =
     do { rtree \<leftarrow> append_mid (ditems lr @ ditems rl) rm;
          m \<leftarrow> Tree_append lm rtree;
          Some (Deep (sl + sr) ll m rr) }"

subsection \<open>Trees: splitting\<close>

text \<open>
  The loop \<^verbatim>\<open>for(; !check_index(index, items[i]->size()); ++i);\<close> over the slots of a
  digit: it stops at the first node whose size exceeds what is left of the index and
  yields the nodes before it, that node, the nodes after it and the reduced index.
  Running past the last node reads a null slot.
\<close>

fun find_item :: "'a node list \<Rightarrow> nat \<Rightarrow> ('a node list \<times> 'a node \<times> 'a node list \<times> nat) option" where
  "find_item [] index = None"
| "find_item (n # ns) index =
     (if index < nsize n then Some ([], n, ns, index)
      else do { (pre, x, post, j) \<leftarrow> find_item ns (index - nsize n);
                Some (n # pre, x, post, j) })"

text \<open>
  \<^verbatim>\<open>Tree::split\<close>.  Where the source asserts that the third child of the branch is there
  and hands it on, the model reads it.
\<close>

fun Tree_split :: "'a tree \<Rightarrow> nat \<Rightarrow> ('a tree \<times> 'a node \<times> 'a tree) option" where
  "Tree_split Empty index = None"
| "Tree_split (Single n) index = Some (Empty, n, Empty)"
| "Tree_split (Deep sz l m r) index =
     (if index < dsize l then
        do { (pre, x, post, j) \<leftarrow> find_item (ditems l) index;
             right \<leftarrow> (if post = [] then Tree_pull_left m r
                       else do { d \<leftarrow> Digit_from post; Some (Deep3 d m r) });
             left \<leftarrow> Tree_from pre;
             Some (left, x, right) }
      else if index - dsize l < tsize m then
        do { (ltree, node, rtree) \<leftarrow> Tree_split m (index - dsize l);
             case node of
               Leaf v \<Rightarrow> None
             | Branch bsz i0 i1 i2 \<Rightarrow>
                 (let index' = index - dsize l - tsize ltree in
                  if index' < nsize i0 then
                    do { left \<leftarrow> Tree_pull_right ltree l;
                         Some (left, i0,
                               Deep3 (case i2 of None \<Rightarrow> Digit1 i1 | Some n2 \<Rightarrow> Digit2 i1 n2)
                                 rtree r) }
                  else if index' - nsize i0 < nsize i1 then
                    do { right \<leftarrow> (case i2 of None \<Rightarrow> Tree_pull_left rtree r
                                    | Some n2 \<Rightarrow> Some (Deep3 (Digit1 n2) rtree r));
                         Some (Deep3 l ltree (Digit1 i0), i1, right) }
                  else
                    (case i2 of
                       None \<Rightarrow> None
                     | Some n2 \<Rightarrow>
                         do { right \<leftarrow> Tree_pull_left rtree r;
                              Some (Deep3 l ltree (Digit2 i0 i1), n2, right) })) }
      else
        do { (pre, x, post, j) \<leftarrow> find_item (ditems r) (index - dsize l - tsize m);
             left \<leftarrow> (if pre = [] then Tree_pull_right m l
                      else do { d \<leftarrow> Digit_from pre; Some (Deep3 l m d) });
             right \<leftarrow> Tree_from post;
             Some (left, x, right) })"

text \<open>\<^verbatim>\<open>Tree::take_front\<close>: the tree before the index, and the node holding it.\<close>

fun Tree_take_front :: "'a tree \<Rightarrow> nat \<Rightarrow> ('a tree \<times> 'a node) option" where
  "Tree_take_front Empty index = None"
| "Tree_take_front (Single n) index = Some (Empty, n)"
| "Tree_take_front (Deep sz l m r) index =
     (if index < dsize l then
        do { (pre, x, post, j) \<leftarrow> find_item (ditems l) index;
             left \<leftarrow> Tree_from pre;
             Some (left, x) }
      else if index - dsize l < tsize m then
        do { (tree, node) \<leftarrow> Tree_take_front m (index - dsize l);
             case node of
               Leaf v \<Rightarrow> None
             | Branch bsz i0 i1 i2 \<Rightarrow>
                 (let index' = index - dsize l - tsize tree in
                  if index' < nsize i0 then
                    do { left \<leftarrow> Tree_pull_right tree l; Some (left, i0) }
                  else if index' - nsize i0 < nsize i1 then
                    Some (Deep3 l tree (Digit1 i0), i1)
                  else
                    (case i2 of
                       None \<Rightarrow> None
                     | Some n2 \<Rightarrow> Some (Deep3 l tree (Digit2 i0 i1), n2))) }
      else
        do { (pre, x, post, j) \<leftarrow> find_item (ditems r) (index - dsize l - tsize m);
             if pre = [] then do { left \<leftarrow> Tree_pull_right m l; Some (left, x) }
             else do { d \<leftarrow> Digit_from pre; Some (Deep3 l m d, x) } })"

text \<open>
  \<^verbatim>\<open>Tree::take_back\<close>: the index counts from the back, and the digits are searched from
  their last node down (\<^verbatim>\<open>while(!check_index(index, items[i]->size())) --i;\<close>).
\<close>

fun Tree_take_back :: "'a tree \<Rightarrow> nat \<Rightarrow> ('a node \<times> 'a tree) option" where
  "Tree_take_back Empty index = None"
| "Tree_take_back (Single n) index = Some (n, Empty)"
| "Tree_take_back (Deep sz l m r) index =
     (if index < dsize r then
        do { (behind, x, ahead, j) \<leftarrow> find_item (rev (ditems r)) index;
             right \<leftarrow> Tree_from (rev behind);
             Some (x, right) }
      else if index - dsize r < tsize m then
        do { (node, tree) \<leftarrow> Tree_take_back m (index - dsize r);
             case node of
               Leaf v \<Rightarrow> None
             | Branch bsz i0 i1 None \<Rightarrow>
                 (let index' = index - dsize r - tsize tree in
                  if index' < nsize i1 then
                    do { right \<leftarrow> Tree_pull_left tree r; Some (i1, right) }
                  else Some (i0, Deep3 (Digit1 i1) tree r))
             | Branch bsz i0 i1 (Some n2) \<Rightarrow>
                 (let index' = index - dsize r - tsize tree in
                  if index' < nsize n2 then
                    do { right \<leftarrow> Tree_pull_left tree r; Some (n2, right) }
                  else if index' - nsize n2 < nsize i1 then
                    Some (i1, Deep3 (Digit1 n2) tree r)
                  else Some (i0, Deep3 (Digit2 i1 n2) tree r)) }
      else
        do { (behind, x, ahead, j) \<leftarrow> find_item (rev (ditems l)) (index - dsize r - tsize m);
             if behind = [] then do { right \<leftarrow> Tree_pull_left m r; Some (x, right) }
             else do { d \<leftarrow> Digit_from (rev behind); Some (x, Deep3 d m r) } })"

subsection \<open>Insertion\<close>

text \<open>
  \<^verbatim>\<open>Node::insert\<close> puts the new value in front of the element at the index and returns
  the rebuilt node together with an overflow node, if the branch had to split.
\<close>

fun Node_insert :: "'a node \<Rightarrow> nat \<Rightarrow> 'a \<Rightarrow> ('a node \<times> 'a node option) option" where
  "Node_insert (Leaf u) index v = Some (Leaf v, Some (Leaf u))"
| "Node_insert (Branch sz i0 i1 i2) index v =
     (if index < nsize i0 then
        do { (node, extra) \<leftarrow> Node_insert i0 index v;
             case extra of
               None \<Rightarrow> Some (Branch (sz + 1) node i1 i2, None)
             | Some e \<Rightarrow>
                 (case i2 of
                    None \<Rightarrow> Some (Branch (sz + 1) node e (Some i1), None)
                  | Some n2 \<Rightarrow> Some (Branch (nsize i0 + 1) node e None, Some (Node2 i1 n2))) }
      else if index - nsize i0 < nsize i1 then
        do { (node, extra) \<leftarrow> Node_insert i1 (index - nsize i0) v;
             case extra of
               None \<Rightarrow> Some (Branch (sz + 1) i0 node i2, None)
             | Some e \<Rightarrow>
                 (case i2 of
                    None \<Rightarrow> Some (Branch (sz + 1) i0 node (Some e), None)
                  | Some n2 \<Rightarrow> Some (Node2 i0 node, Some (Node2 e n2))) }
      else
        (case i2 of
           None \<Rightarrow> None
         | Some n2 \<Rightarrow>
             do { (node, extra) \<leftarrow> Node_insert n2 (index - nsize i0 - nsize i1) v;
                  case extra of
                    None \<Rightarrow> Some (Branch (sz + 1) i0 i1 (Some node), None)
                  | Some e \<Rightarrow> Some (Node2 i0 i1, Some (Node2 node e)) }))"

text \<open>The nodes an optional overflow node adds to the local array of nodes.\<close>

fun extras :: "'a node option \<Rightarrow> 'a node list" where
  "extras None = []"
| "extras (Some e) = [e]"

text \<open>
  \<^verbatim>\<open>Digit::insert<Left>\<close>.  The local array \<^verbatim>\<open>nodes\<close> is filled with the items before the
  one found, the rebuilt node, the overflow node if there is one, and the items after;
  with five nodes the digit keeps three and the other two leave as a branch, the last
  two when \<^verbatim>\<open>Left\<close> is true and the first two otherwise.
\<close>

definition Digit_insert :: "bool \<Rightarrow> 'a digit \<Rightarrow> nat \<Rightarrow> 'a \<Rightarrow> ('a digit \<times> 'a node option) option" where
  "Digit_insert left dg index v =
     do { (pre, x, post, j) \<leftarrow> find_item (ditems dg) index;
          (node, extra) \<leftarrow> Node_insert x j v;
          let nodes = pre @ node # extras extra @ post in
          if length nodes < 5 then Some (Digit (dsize dg + 1) nodes, None)
          else case nodes of
            [n0, n1, n2, n3, n4] \<Rightarrow>
              if left then Some (Digit3 n0 n1 n2, Some (Node2 n3 n4))
              else Some (Digit3 n2 n3 n4, Some (Node2 n0 n1))
          | _ \<Rightarrow> None }"

fun Tree_insert :: "'a tree \<Rightarrow> nat \<Rightarrow> 'a \<Rightarrow> 'a tree option" where
  "Tree_insert Empty index v = None"
| "Tree_insert (Single n) index v =
     do { (node1, extra) \<leftarrow> Node_insert n index v;
          case extra of
            None \<Rightarrow> Some (Single node1)
          | Some e \<Rightarrow> Some (Deep (nsize n + 1) (Digit1 node1) Empty (Digit1 e)) }"
| "Tree_insert (Deep sz l m r) index v =
     (if index < dsize l then
        do { (digit, extra) \<leftarrow> Digit_insert True l index v;
             middle \<leftarrow> (case extra of None \<Rightarrow> Some m | Some e \<Rightarrow> Tree_push_front m e);
             Some (Deep (sz + 1) digit middle r) }
      else if index - dsize l < tsize m then
        do { middle \<leftarrow> Tree_insert m (index - dsize l) v;
             Some (Deep (sz + 1) l middle r) }
      else
        do { (digit, extra) \<leftarrow> Digit_insert False r (index - dsize l - tsize m) v;
             middle \<leftarrow> (case extra of None \<Rightarrow> Some m | Some e \<Rightarrow> Tree_push_back m e);
             Some (Deep (sz + 1) l middle digit) })"

subsection \<open>Erasure\<close>

text \<open>
  \<^verbatim>\<open>Node::merge_left\<close> and \<^verbatim>\<open>Node::merge_right\<close> put what is left of an underfull
  sibling (a node one level down, or nothing) into a branch; the branch splits when it
  already has three children.
\<close>

fun Node_merge_left :: "'a node option \<Rightarrow> 'a node \<Rightarrow> ('a node \<times> 'a node option) option" where
  "Node_merge_left None node = Some (node, None)"
| "Node_merge_left (Some left) (Leaf v) = None"
| "Node_merge_left (Some left) (Branch sz i0 i1 None) =
     Some (Branch (nsize left + sz) left i0 (Some i1), None)"
| "Node_merge_left (Some left) (Branch sz i0 i1 (Some i2)) =
     Some (Node2 left i0, Some (Node2 i1 i2))"

fun Node_merge_right :: "'a node \<Rightarrow> 'a node option \<Rightarrow> ('a node \<times> 'a node option) option" where
  "Node_merge_right node None = Some (node, None)"
| "Node_merge_right (Leaf v) (Some right) = None"
| "Node_merge_right (Branch sz i0 i1 None) (Some right) =
     Some (Branch (nsize right + sz) i0 i1 (Some right), None)"
| "Node_merge_right (Branch sz i0 i1 (Some i2)) (Some right) =
     Some (Node2 i0 i1, Some (Node2 i2 right))"

fun Node_meld_left :: "'a node option \<Rightarrow> 'a node \<times> 'a node option \<Rightarrow> bool \<times> 'a node" where
  "Node_meld_left None (first, Some second) = (True, Node2 first second)"
| "Node_meld_left (Some node) (first, Some second) = (True, Node3 node first second)"
| "Node_meld_left None (first, None) = (False, first)"
| "Node_meld_left (Some node) (first, None) = (True, Node2 node first)"

fun Node_meld_right :: "'a node \<times> 'a node option \<Rightarrow> 'a node option \<Rightarrow> bool \<times> 'a node" where
  "Node_meld_right (first, Some second) None = (True, Node2 first second)"
| "Node_meld_right (first, Some second) (Some node) = (True, Node3 first second node)"
| "Node_meld_right (first, None) None = (False, first)"
| "Node_meld_right (first, None) (Some node) = (True, Node2 first node)"

text \<open>
  \<^verbatim>\<open>Node::erase\<close> returns whether the rebuilt node is still full, and the node: for a
  value there is none, and a branch that is not full hands its only remaining child
  up.  Where the source stores the rebuilt child in a new branch, the model requires
  it to be there.
\<close>

fun Node_erase :: "'a node \<Rightarrow> nat \<Rightarrow> (bool \<times> 'a node option) option" where
  "Node_erase (Leaf u) index = Some (False, None)"
| "Node_erase (Branch sz i0 i1 i2) index =
     (if index < nsize i0 then
        do { (full, node) \<leftarrow> Node_erase i0 index;
             if full then
               (case node of None \<Rightarrow> None
                | Some n \<Rightarrow> Some (True, Some (Branch (sz - 1) n i1 i2)))
             else do { merge \<leftarrow> Node_merge_left node i1;
                       let (f, n) = Node_meld_right merge i2 in Some (f, Some n) } }
      else if index - nsize i0 < nsize i1 then
        do { (full, node) \<leftarrow> Node_erase i1 (index - nsize i0);
             if full then
               (case node of None \<Rightarrow> None
                | Some n \<Rightarrow> Some (True, Some (Branch (sz - 1) i0 n i2)))
             else do { merge \<leftarrow> Node_merge_right i0 node;
                       let (f, n) = Node_meld_right merge i2 in Some (f, Some n) } }
      else
        (case i2 of
           None \<Rightarrow> None
         | Some n2 \<Rightarrow>
             do { (full, node) \<leftarrow> Node_erase n2 (index - nsize i0 - nsize i1);
                  if full then
                    (case node of None \<Rightarrow> None
                     | Some n \<Rightarrow> Some (True, Some (Branch (sz - 1) i0 i1 (Some n))))
                  else do { merge \<leftarrow> Node_merge_right i1 node;
                            let (f, n) = Node_meld_left (Some i0) merge in Some (f, Some n) } }))"

text \<open>
  \<^verbatim>\<open>Digit::erase\<close> returns a \<^verbatim>\<open>std::variant<NodePtr, DigitPtr>\<close>: \<open>Inl\<close> is what is left of
  the only node of a digit of order one, \<open>Inr\<close> the rebuilt digit.  An underfull node
  is merged into its left neighbour when it is the last node of the digit
  (\<^verbatim>\<open>mid + 1 == order\<close>) and into its right neighbour otherwise.
\<close>

definition Digit_erase :: "'a digit \<Rightarrow> nat \<Rightarrow> ('a node option + 'a digit) option" where
  "Digit_erase dg index =
     do { (pre, x, post, j) \<leftarrow> find_item (ditems dg) index;
          (full, node) \<leftarrow> Node_erase x j;
          if full then
            (case node of None \<Rightarrow> None
             | Some n \<Rightarrow> map_option Inr (Digit_from (pre @ n # post)))
          else if order dg = 1 then Some (Inl node)
          else
            (case post of
               [] \<Rightarrow>
                 (case rev pre of
                    [] \<Rightarrow> None
                  | p # ps \<Rightarrow>
                      do { (merged, extra) \<leftarrow> Node_merge_right p node;
                           map_option Inr (Digit_from (rev ps @ merged # extras extra)) })
             | q # qs \<Rightarrow>
                 do { (merged, extra) \<leftarrow> Node_merge_left node q;
                      map_option Inr (Digit_from (pre @ merged # extras extra @ qs)) }) }"

fun Digit_merge_left :: "'a node option \<Rightarrow> 'a node \<Rightarrow> 'a digit option" where
  "Digit_merge_left None node = Digit_from_node node"
| "Digit_merge_left (Some left) (Leaf v) = None"
| "Digit_merge_left (Some left) (Branch sz b0 b1 b2) =
     do { (merge, extra) \<leftarrow> Node_merge_left (Some left) b0;
          case extra of
            None \<Rightarrow>
              (case b2 of None \<Rightarrow> Some (Digit2 merge b1)
               | Some n2 \<Rightarrow> Some (Digit3 merge b1 n2))
          | Some e \<Rightarrow>
              (case b2 of None \<Rightarrow> Some (Digit3 merge e b1)
               | Some n2 \<Rightarrow> Some (Digit4 merge e b1 n2)) }"

fun Digit_merge_right :: "'a node \<Rightarrow> 'a node option \<Rightarrow> 'a digit option" where
  "Digit_merge_right node None = Digit_from_node node"
| "Digit_merge_right (Leaf v) (Some right) = None"
| "Digit_merge_right (Branch sz b0 b1 None) (Some right) =
     do { (merge, extra) \<leftarrow> Node_merge_right b1 (Some right);
          case extra of
            None \<Rightarrow> Some (Digit2 b0 merge)
          | Some e \<Rightarrow> Some (Digit3 b0 merge e) }"
| "Digit_merge_right (Branch sz b0 b1 (Some b2)) (Some right) =
     do { (merge, extra) \<leftarrow> Node_merge_right b2 (Some right);
          case extra of
            None \<Rightarrow> Some (Digit3 b0 b1 merge)
          | Some e \<Rightarrow> Some (Digit4 b0 b1 merge e) }"

text \<open>
  \<^verbatim>\<open>Tree::erase\<close>.  \<^verbatim>\<open>std::get<NodePtr>(meld)\<close> throws unless the erased middle is a
  single node.
\<close>

fun Tree_erase :: "'a tree \<Rightarrow> nat \<Rightarrow> (bool \<times> 'a tree) option" where
  "Tree_erase Empty index = None"
| "Tree_erase (Single n) index =
     do { (full, erased) \<leftarrow> Node_erase n index;
          case erased of
            None \<Rightarrow> Some (False, Empty)
          | Some e \<Rightarrow> Some (full, Single e) }"
| "Tree_erase (Deep sz l m r) index =
     (if index < dsize l then
        do { res \<leftarrow> Digit_erase l index;
             case res of
               Inr digit \<Rightarrow> Some (True, Deep (sz - 1) digit m r)
             | Inl node \<Rightarrow>
                 if m \<noteq> Empty then
                   do { (head, tail) \<leftarrow> Tree_view_front m;
                        d \<leftarrow> Digit_merge_left node head;
                        Some (True, Deep (sz - 1) d tail r) }
                 else
                   (case ditems r of
                      [] \<Rightarrow> None
                    | r0 # rs \<Rightarrow>
                        do { merge \<leftarrow> Node_merge_left node r0;
                             if rs = [] then Some (True, Tree_from_merge merge)
                             else do { (h, r') \<leftarrow> Digit_view_front r;
                                       Some (True, Deep (sz - 1) (Digit_from_merge merge)
                                                     Empty r') } }) }
      else if index - dsize l < tsize m then
        do { (full, meld) \<leftarrow> Tree_erase m (index - dsize l);
             if full then Some (True, Deep (sz - 1) l meld r)
             else
               (case meld of
                  Single node \<Rightarrow>
                    (case ditems l of
                       [l0, l1, l2, l3] \<Rightarrow>
                         Some (True, Deep (sz - 1) (Digit2 l0 l1) (Single (Node3 l2 l3 node)) r)
                     | ls \<Rightarrow>
                         do { d \<leftarrow> Digit_from (ls @ [node]);
                              Some (True, Deep (sz - 1) d Empty r) })
                | _ \<Rightarrow> None) }
      else
        do { res \<leftarrow> Digit_erase r (index - dsize l - tsize m);
             case res of
               Inr digit \<Rightarrow> Some (True, Deep (sz - 1) l m digit)
             | Inl node \<Rightarrow>
                 if m \<noteq> Empty then
                   do { (init, lst) \<leftarrow> Tree_view_back m;
                        d \<leftarrow> Digit_merge_right lst node;
                        Some (True, Deep (sz - 1) l init d) }
                 else
                   (case rev (ditems l) of
                      [] \<Rightarrow> None
                    | lb # ls \<Rightarrow>
                        do { merge \<leftarrow> Node_merge_right lb node;
                             if ls = [] then Some (True, Tree_from_merge merge)
                             else do { (l', x) \<leftarrow> Digit_view_back l;
                                       Some (True, Deep (sz - 1) l' Empty
                                                     (Digit_from_merge merge)) } }) })"

subsection \<open>The iterator (\<^verbatim>\<open>Sequence::Iterator<false>\<close>)\<close>

text \<open>
  The iterator is a stack of frames, each a node, a digit or a tree; the persistent
  cons-list of \<^verbatim>\<open>_plist.hpp\<close> is a list.  \<^verbatim>\<open>advance(n)\<close> skips \<open>n\<close> elements and then
  expands the top of the stack until a value is on top.
\<close>

datatype 'a frame = FNode "'a node" | FDigit "'a digit" | FTree "'a tree"

text \<open>The number of nodes, digits and trees a stack holds; it bounds the work of \<open>advance\<close>.\<close>

fun nweight :: "'a node \<Rightarrow> nat" where
  "nweight (Leaf v) = 1"
| "nweight (Branch sz n0 n1 n2) =
     1 + nweight n0 + nweight n1 + (case n2 of None \<Rightarrow> 0 | Some n \<Rightarrow> nweight n)"

fun dweight :: "'a digit \<Rightarrow> nat" where
  "dweight (Digit sz ns) = 1 + sum_list (map nweight ns)"

fun tweight :: "'a tree \<Rightarrow> nat" where
  "tweight Empty = 1"
| "tweight (Single n) = 1 + nweight n"
| "tweight (Deep sz l m r) = 1 + dweight l + tweight m + dweight r"

fun fweight :: "'a frame \<Rightarrow> nat" where
  "fweight (FNode n) = nweight n"
| "fweight (FDigit d) = dweight d"
| "fweight (FTree t) = tweight t"

definition sweight :: "'a frame list \<Rightarrow> nat" where
  "sweight st = sum_list (map fweight st)"

function advance :: "nat \<Rightarrow> 'a frame list \<Rightarrow> 'a frame list option" where
  "advance n [] = Some []"
| "advance n (FNode (Leaf v) # st) =
     (if n = 0 then Some (FNode (Leaf v) # st) else advance (n - 1) st)"
| "advance n (FNode (Branch sz n0 n1 n2) # st) =
     (if n < sz then
        advance n (FNode n0 # FNode n1 # (case n2 of None \<Rightarrow> st | Some i2 \<Rightarrow> FNode i2 # st))
      else advance (n - sz) st)"
| "advance n (FDigit (Digit sz ns) # st) =
     (if n < sz then
        (if 1 \<le> length ns \<and> length ns \<le> 4 then advance n (map FNode ns @ st) else None)
      else advance (n - sz) st)"
| "advance n (FTree Empty # st) = advance n st"
| "advance n (FTree (Single x) # st) =
     (if n < nsize x then advance n (FNode x # st) else advance (n - nsize x) st)"
| "advance n (FTree (Deep sz l m r) # st) =
     (if n < sz then advance n (FDigit l # FTree m # FDigit r # st)
      else advance (n - sz) st)"
  by pat_completeness auto
termination
  by (relation "measure (\<lambda>(n, st). sweight st)")
    (auto simp: sweight_def comp_def split: option.splits)

text \<open>\<^verbatim>\<open>begin()\<close>, \<^verbatim>\<open>operator*\<close> and \<^verbatim>\<open>operator++\<close>; \<^verbatim>\<open>end()\<close> is the empty stack.\<close>

definition Sequence_begin :: "'a sequence \<Rightarrow> 'a frame list option" where
  "Sequence_begin s = advance 0 [FTree s]"

fun deref :: "'a frame list \<Rightarrow> 'a option" where
  "deref (FNode (Leaf v) # st) = Some v"
| "deref st = None"

fun incr :: "'a frame list \<Rightarrow> 'a frame list option" where
  "incr [] = None"
| "incr (f # st) = advance 0 st"

lemma advance_sweight: "advance n st = Some st' \<Longrightarrow> sweight st' \<le> sweight st"
  by (induction n st rule: advance.induct)
    (auto simp: sweight_def comp_def split: if_splits option.splits)

lemma fweight_pos: "0 < fweight f"
proof (cases f)
  case (FNode n)
  then show ?thesis by (cases n) simp_all
next
  case (FDigit d)
  then show ?thesis by (cases d) simp
next
  case (FTree t)
  then show ?thesis by (cases t) simp_all
qed

lemma incr_sweight: "incr st = Some st' \<Longrightarrow> sweight st' < sweight st"
proof (cases st)
  case Nil
  assume "incr st = Some st'"
  with Nil show ?thesis by simp
next
  case (Cons f tl)
  assume "incr st = Some st'"
  with Cons have "sweight st' \<le> sweight tl" by (simp add: advance_sweight)
  with fweight_pos [of f] Cons show ?thesis by (simp add: sweight_def)
qed

text \<open>
  \<^verbatim>\<open>equal_iterator(xs, xl, ys, yl)\<close> of \<^verbatim>\<open>_utility.hpp\<close>, with both ends the empty stack
  and \<^verbatim>\<open>Equal\<close> the equality of the elements.
\<close>

function equal_iterator :: "'a frame list \<Rightarrow> 'a frame list \<Rightarrow> bool option" where
  "equal_iterator xs ys =
     (if xs \<noteq> [] \<and> ys \<noteq> [] then
        do { x \<leftarrow> deref xs;
             y \<leftarrow> deref ys;
             if x \<noteq> y then Some False
             else do { xs' \<leftarrow> incr xs; ys' \<leftarrow> incr ys; equal_iterator xs' ys' } }
      else Some (xs = [] \<and> ys = []))"
  by pat_completeness auto
termination
  by (relation "measure (\<lambda>(xs, ys). sweight xs)") (auto simp: incr_sweight)

text \<open>\<^verbatim>\<open>Sequence::operator ==\<close>.\<close>

definition Sequence_eq :: "'a sequence \<Rightarrow> 'a sequence \<Rightarrow> error + bool" where
  "Sequence_eq s t = lift (do { xs \<leftarrow> Sequence_begin s; ys \<leftarrow> Sequence_begin t; equal_iterator xs ys })"

text \<open>
  \<^verbatim>\<open>HashIterable::operator()\<close>: the range-for loop over the sequence, from \<^verbatim>\<open>begin()\<close>
  until the iterator equals \<^verbatim>\<open>end()\<close>.  The hash of an element is the parameter \<open>h\<close>.
\<close>

function hash_loop :: "('a \<Rightarrow> 64 word) \<Rightarrow> 64 word \<Rightarrow> 'a frame list \<Rightarrow> 64 word option" where
  "hash_loop h seed it =
     (if it \<noteq> [] then
        do { x \<leftarrow> deref it;
             it' \<leftarrow> incr it;
             hash_loop h (hash_combine seed (h x)) it' }
      else Some seed)"
  by pat_completeness auto
termination
  by (relation "measure (\<lambda>(h, seed, it). sweight it)") (auto simp: incr_sweight)

text \<open>\<^verbatim>\<open>std::hash<Sequence>\<close>.\<close>

definition Sequence_hash :: "('a \<Rightarrow> 64 word) \<Rightarrow> 'a sequence \<Rightarrow> error + 64 word" where
  "Sequence_hash h s = lift (do { it \<leftarrow> Sequence_begin s; hash_loop h 0x9e3779b9 it })"

subsection \<open>The public operations of \<^verbatim>\<open>Sequence\<close>: ends and concatenation\<close>

definition Sequence_push_front :: "'a sequence \<Rightarrow> 'a \<Rightarrow> error + 'a sequence" where
  "Sequence_push_front s v = lift (Tree_push_front s (Leaf v))"

definition Sequence_push_back :: "'a sequence \<Rightarrow> 'a \<Rightarrow> error + 'a sequence" where
  "Sequence_push_back s v = lift (Tree_push_back s (Leaf v))"

definition Sequence_append :: "'a sequence \<Rightarrow> 'a sequence \<Rightarrow> error + 'a sequence" where
  "Sequence_append s that = lift (Tree_append s that)"

subsection \<open>The public operations of \<^verbatim>\<open>Sequence\<close>: splitting and slices\<close>

text \<open>\<^verbatim>\<open>Node::value()\<close> is \<^verbatim>\<open>std::get<0>\<close>: it throws on a branch.\<close>

fun Node_value :: "'a node \<Rightarrow> 'a option" where
  "Node_value (Leaf v) = Some v"
| "Node_value (Branch sz n0 n1 n2) = None"

definition Sequence_split :: "'a sequence \<Rightarrow> nat \<Rightarrow> error + ('a sequence \<times> 'a \<times> 'a sequence)" where
  "Sequence_split s index =
     (if index \<ge> tsize s then Inl OutOfRange
      else lift (do { (left, node, right) \<leftarrow> Tree_split s index;
                      v \<leftarrow> Node_value node;
                      Some (left, v, right) }))"

definition Sequence_take_front :: "'a sequence \<Rightarrow> nat \<Rightarrow> error + 'a sequence" where
  "Sequence_take_front s index =
     (if index = 0 then Inr Empty
      else if index \<ge> tsize s then Inr s
      else lift (do { (tree, node) \<leftarrow> Tree_take_front s index; Some tree }))"

definition Sequence_take_back :: "'a sequence \<Rightarrow> nat \<Rightarrow> error + 'a sequence" where
  "Sequence_take_back s index =
     (if index = 0 then Inr Empty
      else if index \<ge> tsize s then Inr s
      else lift (do { (node, tree) \<leftarrow> Tree_take_back s index; Some tree }))"

definition Sequence_drop_back :: "'a sequence \<Rightarrow> nat \<Rightarrow> error + 'a sequence" where
  "Sequence_drop_back s index = Sequence_take_front s (tsize s - min (tsize s) index)"

definition Sequence_drop_front :: "'a sequence \<Rightarrow> nat \<Rightarrow> error + 'a sequence" where
  "Sequence_drop_front s index = Sequence_take_back s (tsize s - min (tsize s) index)"

text \<open>
  \<^verbatim>\<open>Sequence::at(left, right)\<close>.  Its first three statements are conditionals without
  \<^verbatim>\<open>return\<close>: each computes a sequence and drops it.  The first,
  \<^verbatim>\<open>if(left >= right) Sequence();\<close>, builds the empty sequence and cannot raise; the
  other two call \<^verbatim>\<open>take_front\<close> and \<^verbatim>\<open>drop_front\<close>, and an exception raised there
  would leave the function.  The last statement returns.
\<close>

definition Sequence_at2 :: "'a sequence \<Rightarrow> nat \<Rightarrow> nat \<Rightarrow> error + 'a sequence" where
  "Sequence_at2 s left right =
     (case (if left = 0 then Sequence_take_front s right else Inr Empty) of
        Inl e \<Rightarrow> Inl e
      | Inr dropped1 \<Rightarrow>
          (case (if right \<ge> tsize s then Sequence_drop_front s left else Inr Empty) of
             Inl e \<Rightarrow> Inl e
           | Inr dropped2 \<Rightarrow>
               (case Sequence_take_front s right of
                  Inl e \<Rightarrow> Inl e
                | Inr t \<Rightarrow> Sequence_drop_front t left)))"

text \<open>\<^verbatim>\<open>Sequence::set(left, right, values)\<close>, the slice assignment of step 1.\<close>

definition Sequence_set3 :: "'a sequence \<Rightarrow> nat \<Rightarrow> nat \<Rightarrow> 'a sequence \<Rightarrow> error + 'a sequence" where
  "Sequence_set3 s left right vals =
     (let right = (if left > right then left else right) in
      case Sequence_take_front s left of
        Inl e \<Rightarrow> Inl e
      | Inr front \<Rightarrow>
          (case Sequence_append front vals of
             Inl e \<Rightarrow> Inl e
           | Inr fv \<Rightarrow>
               (case Sequence_drop_front s right of
                  Inl e \<Rightarrow> Inl e
                | Inr back \<Rightarrow> Sequence_append fv back)))"

subsection \<open>The public operations of \<^verbatim>\<open>Sequence\<close>: insertion and erasure\<close>

definition Sequence_insert :: "'a sequence \<Rightarrow> nat \<Rightarrow> 'a \<Rightarrow> error + 'a sequence" where
  "Sequence_insert s index v =
     (if index \<ge> tsize s then Inl OutOfRange else lift (Tree_insert s index v))"

definition Sequence_erase :: "'a sequence \<Rightarrow> nat \<Rightarrow> error + 'a sequence" where
  "Sequence_erase s index =
     (if index \<ge> tsize s then Inl OutOfRange
      else lift (do { (full, tree) \<leftarrow> Tree_erase s index;
                      if \<not> full then Some Empty else Some tree }))"

text \<open>
  The \<^verbatim>\<open>insert\<close> method of the Python class (\<^verbatim>\<open>_psequence.cpp\<close>).  The index is a
  \<^verbatim>\<open>Py_ssize_t\<close>, modelled as an integer.
\<close>

definition py_insert :: "'a sequence \<Rightarrow> int \<Rightarrow> 'a \<Rightarrow> error + 'a sequence" where
  "py_insert seq index v =
     (let index = (if index < 0 then index + int (tsize seq) else index) in
      if index < 0 then Sequence_push_front seq v
      else if index \<ge> int (tsize seq) then Sequence_push_back seq v
      else Sequence_insert seq (nat index) v)"

section \<open>Properties of the sequence engine\<close>

subsection \<open>Sizes and element lists\<close>

lemma nslist_simps [simp]:
  "nslist [] = []" "nslist (n # ns) = nlist n @ nslist ns" "nslist (ns @ ms) = nslist ns @ nslist ms"
  by (simp_all add: nslist_def)

lemma nssize_simps [simp]:
  "nssize [] = 0" "nssize (n # ns) = nsize n + nssize ns" "nssize (ns @ ms) = nssize ns + nssize ms"
  by (simp_all add: nssize_def)

lemma wf_node_size: "wf_node d n \<Longrightarrow> nsize n = length (nlist n)"
  by (induction n arbitrary: d) (auto split: option.splits)

lemma wf_node_depth: "wf_node d n \<Longrightarrow> ndepth n = d"
  by (induction n arbitrary: d) auto

lemma nlist_nonempty: "wf_node d n \<Longrightarrow> nlist n \<noteq> []"
  by (induction n arbitrary: d) auto

lemma wf_node_pos: "wf_node d n \<Longrightarrow> 0 < nsize n"
  using nlist_nonempty [of d n] by (simp add: wf_node_size)

lemma wf_nodes_size: "list_all (wf_node d) ns \<Longrightarrow> nssize ns = length (nslist ns)"
  by (induction ns) (auto simp: wf_node_size)

lemma wf_digit_size: "wf_digit d dg \<Longrightarrow> dsize dg = length (dlist dg)"
  by (cases dg) (auto simp: wf_nodes_size)

lemma wf_tree_size: "wf_tree d t \<Longrightarrow> tsize t = length (tlist t)"
  by (induction t arbitrary: d) (auto simp: wf_node_size wf_digit_size)

lemma Node2_simps [simp]:
  "nsize (Node2 a b) = nsize a + nsize b"
  "nlist (Node2 a b) = nlist a @ nlist b"
  "wf_node d (Node2 a b) = (0 < d \<and> wf_node (d - 1) a \<and> wf_node (d - 1) b)"
  by (auto simp: Node2_def)

lemma Node3_simps [simp]:
  "nsize (Node3 a b c) = nsize a + nsize b + nsize c"
  "nlist (Node3 a b c) = nlist a @ nlist b @ nlist c"
  "wf_node d (Node3 a b c) = (0 < d \<and> wf_node (d - 1) a \<and> wf_node (d - 1) b \<and> wf_node (d - 1) c)"
  by (auto simp: Node3_def)

lemma Digit1_simps [simp]:
  "dsize (Digit1 a) = nsize a" "ditems (Digit1 a) = [a]" "dlist (Digit1 a) = nlist a"
  "wf_digit d (Digit1 a) = wf_node d a"
  by (auto simp: Digit1_def)

lemma Digit2_simps [simp]:
  "dsize (Digit2 a b) = nsize a + nsize b" "ditems (Digit2 a b) = [a, b]"
  "dlist (Digit2 a b) = nlist a @ nlist b"
  "wf_digit d (Digit2 a b) = (wf_node d a \<and> wf_node d b)"
  by (auto simp: Digit2_def)

lemma Digit3_simps [simp]:
  "dsize (Digit3 a b c) = nsize a + nsize b + nsize c" "ditems (Digit3 a b c) = [a, b, c]"
  "dlist (Digit3 a b c) = nlist a @ nlist b @ nlist c"
  "wf_digit d (Digit3 a b c) = (wf_node d a \<and> wf_node d b \<and> wf_node d c)"
  by (auto simp: Digit3_def)

lemma Digit4_simps [simp]:
  "dsize (Digit4 a b c e) = nsize a + nsize b + nsize c + nsize e"
  "ditems (Digit4 a b c e) = [a, b, c, e]"
  "dlist (Digit4 a b c e) = nlist a @ nlist b @ nlist c @ nlist e"
  "wf_digit d (Digit4 a b c e) = (wf_node d a \<and> wf_node d b \<and> wf_node d c \<and> wf_node d e)"
  by (auto simp: Digit4_def)

lemma Deep3_simps [simp]:
  "tsize (Deep3 l m r) = dsize l + tsize m + dsize r"
  "tlist (Deep3 l m r) = dlist l @ tlist m @ dlist r"
  "wf_tree d (Deep3 l m r) = (wf_digit d l \<and> wf_tree (d + 1) m \<and> wf_digit d r)"
  by (auto simp: Deep3_def)

text \<open>The shapes a well-formed digit can have.\<close>

lemma wf_digit_cases:
  assumes "wf_digit d dg"
  obtains (1) a where "dg = Digit (nsize a) [a]" "wf_node d a"
  | (2) a b where "dg = Digit (nsize a + nsize b) [a, b]" "wf_node d a" "wf_node d b"
  | (3) a b c where "dg = Digit (nsize a + nsize b + nsize c) [a, b, c]"
      "wf_node d a" "wf_node d b" "wf_node d c"
  | (4) a b c e where "dg = Digit (nsize a + nsize b + nsize c + nsize e) [a, b, c, e]"
      "wf_node d a" "wf_node d b" "wf_node d c" "wf_node d e"
proof (cases dg)
  case (Digit sz ns)
  with assms have len: "0 < length ns" "length ns \<le> 4" and wf: "list_all (wf_node d) ns"
    and sz: "sz = nssize ns" by simp_all
  from len consider "length ns = 1" | "length ns = 2" | "length ns = 3" | "length ns = 4"
    by linarith
  then show thesis
  proof cases
    case 1
    then obtain a where "ns = [a]" by (auto simp: length_Suc_conv)
    with Digit wf sz that(1) show thesis by simp
  next
    case 2
    then obtain a b where "ns = [a, b]" by (auto simp: length_Suc_conv numeral_2_eq_2)
    with Digit wf sz that(2) show thesis by simp
  next
    case 3
    then obtain a b c where "ns = [a, b, c]" by (auto simp: length_Suc_conv numeral_3_eq_3)
    with Digit wf sz that(3) show thesis by simp
  next
    case 4
    then obtain a b c e where "ns = [a, b, c, e]"
      by (auto simp: length_Suc_conv eval_nat_numeral)
    with Digit wf sz that(4) show thesis by simp
  qed
qed

subsection \<open>Pushing at either end\<close>

lemma Tree_push_front_ok:
  "wf_tree d t \<Longrightarrow> wf_node d x \<Longrightarrow>
   \<exists>t'. Tree_push_front t x = Some t' \<and> wf_tree d t' \<and>
        tlist t' = nlist x @ tlist t \<and> tsize t' = tsize t + nsize x"
proof (induction t arbitrary: d x)
  case Empty
  then show ?case by simp
next
  case (Single n)
  then show ?case by simp
next
  case (Deep sz l m r)
  from Deep.prems have wl: "wf_digit d l" and wm: "wf_tree (d + 1) m" and wr: "wf_digit d r"
    and sz: "sz = dsize l + tsize m + dsize r" by simp_all
  from wl show ?case
  proof (cases rule: wf_digit_cases)
    case (4 a b c e)
    let ?n = "Branch (dsize l - nsize a) b c (Some e)"
    have "wf_node (d + 1) ?n" using 4 by simp
    from Deep.IH(1) [OF wm this]
    obtain m' where "Tree_push_front m ?n = Some m'" "wf_tree (d + 1) m'"
      "tlist m' = nlist ?n @ tlist m" "tsize m' = tsize m + nsize ?n" by blast
    with 4 wr sz Deep.prems(2) show ?thesis by simp
  qed (use wm wr sz Deep.prems(2) in auto)
qed

lemma Tree_push_back_ok:
  "wf_tree d t \<Longrightarrow> wf_node d x \<Longrightarrow>
   \<exists>t'. Tree_push_back t x = Some t' \<and> wf_tree d t' \<and>
        tlist t' = tlist t @ nlist x \<and> tsize t' = tsize t + nsize x"
proof (induction t arbitrary: d x)
  case Empty
  then show ?case by simp
next
  case (Single n)
  then show ?case by simp
next
  case (Deep sz l m r)
  from Deep.prems have wl: "wf_digit d l" and wm: "wf_tree (d + 1) m" and wr: "wf_digit d r"
    and sz: "sz = dsize l + tsize m + dsize r" by simp_all
  from wr show ?case
  proof (cases rule: wf_digit_cases)
    case (4 a b c e)
    let ?n = "Branch (dsize r - nsize e) a b (Some c)"
    have "wf_node (d + 1) ?n" using 4 by simp
    from Deep.IH(1) [OF wm this]
    obtain m' where "Tree_push_back m ?n = Some m'" "wf_tree (d + 1) m'"
      "tlist m' = tlist m @ nlist ?n" "tsize m' = tsize m + nsize ?n" by blast
    with 4 wl sz Deep.prems(2) show ?thesis by simp
  qed (use wm wl sz Deep.prems(2) in auto)
qed

subsection \<open>Concatenation\<close>

lemma append_mid_ok:
  assumes "list_all (wf_node d) ms" "2 \<le> length ms" "length ms \<le> 8" "wf_tree (d + 1) t"
  shows "\<exists>t'. append_mid ms t = Some t' \<and> wf_tree (d + 1) t' \<and>
              tlist t' = nslist ms @ tlist t"
proof -
  have step: "\<exists>t'. Tree_push_front u x = Some t' \<and> wf_tree (d + 1) t' \<and>
                  tlist t' = nlist x @ tlist u"
    if "wf_tree (d + 1) u" "wf_node (d + 1) x" for u x
    using Tree_push_front_ok [OF that] by blast
  from assms(2,3) consider "length ms = 2" | "length ms = 3" | "length ms = 4"
    | "length ms = 5" | "length ms = 6" | "length ms = 7" | "length ms = 8"
    by linarith
  then show ?thesis
  proof cases
    case 1
    then obtain m0 m1 where ms: "ms = [m0, m1]"
      by (auto simp: length_Suc_conv eval_nat_numeral)
    with assms(1) have "wf_node (d + 1) (Node2 m0 m1)" by simp
    from step [OF assms(4) this] ms show ?thesis by simp
  next
    case 2
    then obtain m0 m1 m2 where ms: "ms = [m0, m1, m2]"
      by (auto simp: length_Suc_conv eval_nat_numeral)
    with assms(1) have "wf_node (d + 1) (Node3 m0 m1 m2)" by simp
    from step [OF assms(4) this] ms show ?thesis by simp
  next
    case 3
    then obtain m0 m1 m2 m3 where ms: "ms = [m0, m1, m2, m3]"
      by (auto simp: length_Suc_conv eval_nat_numeral)
    with assms(1) have w: "wf_node (d + 1) (Node2 m2 m3)" "wf_node (d + 1) (Node2 m0 m1)"
      by simp_all
    from step [OF assms(4) w(1)] obtain t1 where t1: "Tree_push_front t (Node2 m2 m3) = Some t1"
      "wf_tree (d + 1) t1" "tlist t1 = nlist (Node2 m2 m3) @ tlist t" by blast
    from step [OF t1(2) w(2)] t1 ms show ?thesis by auto
  next
    case 4
    then obtain m0 m1 m2 m3 m4 where ms: "ms = [m0, m1, m2, m3, m4]"
      by (auto simp: length_Suc_conv eval_nat_numeral)
    with assms(1) have w: "wf_node (d + 1) (Node3 m2 m3 m4)" "wf_node (d + 1) (Node2 m0 m1)"
      by simp_all
    from step [OF assms(4) w(1)] obtain t1 where t1: "Tree_push_front t (Node3 m2 m3 m4) = Some t1"
      "wf_tree (d + 1) t1" "tlist t1 = nlist (Node3 m2 m3 m4) @ tlist t" by blast
    from step [OF t1(2) w(2)] t1 ms show ?thesis by auto
  next
    case 5
    then obtain m0 m1 m2 m3 m4 m5 where ms: "ms = [m0, m1, m2, m3, m4, m5]"
      by (auto simp: length_Suc_conv eval_nat_numeral)
    with assms(1) have w: "wf_node (d + 1) (Node3 m3 m4 m5)" "wf_node (d + 1) (Node3 m0 m1 m2)"
      by simp_all
    from step [OF assms(4) w(1)] obtain t1 where t1: "Tree_push_front t (Node3 m3 m4 m5) = Some t1"
      "wf_tree (d + 1) t1" "tlist t1 = nlist (Node3 m3 m4 m5) @ tlist t" by blast
    from step [OF t1(2) w(2)] t1 ms show ?thesis by auto
  next
    case 6
    then obtain m0 m1 m2 m3 m4 m5 m6 where ms: "ms = [m0, m1, m2, m3, m4, m5, m6]"
      by (auto simp: length_Suc_conv eval_nat_numeral)
    with assms(1) have w: "wf_node (d + 1) (Node3 m4 m5 m6)" "wf_node (d + 1) (Node2 m2 m3)"
      "wf_node (d + 1) (Node2 m0 m1)" by simp_all
    from step [OF assms(4) w(1)] obtain t1 where t1: "Tree_push_front t (Node3 m4 m5 m6) = Some t1"
      "wf_tree (d + 1) t1" "tlist t1 = nlist (Node3 m4 m5 m6) @ tlist t" by blast
    from step [OF t1(2) w(2)] obtain t2 where t2: "Tree_push_front t1 (Node2 m2 m3) = Some t2"
      "wf_tree (d + 1) t2" "tlist t2 = nlist (Node2 m2 m3) @ tlist t1" by blast
    from step [OF t2(2) w(3)] t1 t2 ms show ?thesis by auto
  next
    case 7
    then obtain m0 m1 m2 m3 m4 m5 m6 m7 where ms: "ms = [m0, m1, m2, m3, m4, m5, m6, m7]"
      by (auto simp: length_Suc_conv eval_nat_numeral)
    with assms(1) have w: "wf_node (d + 1) (Node3 m5 m6 m7)" "wf_node (d + 1) (Node3 m2 m3 m4)"
      "wf_node (d + 1) (Node2 m0 m1)" by simp_all
    from step [OF assms(4) w(1)] obtain t1 where t1: "Tree_push_front t (Node3 m5 m6 m7) = Some t1"
      "wf_tree (d + 1) t1" "tlist t1 = nlist (Node3 m5 m6 m7) @ tlist t" by blast
    from step [OF t1(2) w(2)] obtain t2 where t2: "Tree_push_front t1 (Node3 m2 m3 m4) = Some t2"
      "wf_tree (d + 1) t2" "tlist t2 = nlist (Node3 m2 m3 m4) @ tlist t1" by blast
    from step [OF t2(2) w(3)] t1 t2 ms show ?thesis by auto
  qed
qed

lemma dlist_ditems [simp]: "nslist (ditems dg) = dlist dg"
  by (cases dg) simp

lemma wf_digit_items: "wf_digit d dg \<Longrightarrow>
  list_all (wf_node d) (ditems dg) \<and> 1 \<le> order dg \<and> order dg \<le> 4"
  by (cases dg) (auto simp: Suc_le_eq)

lemma Tree_append_ok:
  "wf_tree d s \<Longrightarrow> wf_tree d t \<Longrightarrow>
   \<exists>r. Tree_append s t = Some r \<and> wf_tree d r \<and> tlist r = tlist s @ tlist t"
proof (induction s t arbitrary: d rule: Tree_append.induct)
  case (1 that)
  then show ?case by simp
next
  case (2 n that)
  with Tree_push_front_ok [of d that n] show ?case by auto
next
  case (3 sl ll lm lr)
  then show ?case by simp
next
  case (4 sl ll lm lr n)
  with Tree_push_back_ok [of d "Deep sl ll lm lr" n] show ?case by auto
next
  case (5 sl ll lm lr sr rl rm rr)
  from "5.prems" have wl: "wf_digit d ll" "wf_tree (d + 1) lm" "wf_digit d lr"
    "sl = dsize ll + tsize lm + dsize lr"
    and wr: "wf_digit d rl" "wf_tree (d + 1) rm" "wf_digit d rr"
    "sr = dsize rl + tsize rm + dsize rr" by simp_all
  let ?ms = "ditems lr @ ditems rl"
  from wf_digit_items [OF wl(3)] wf_digit_items [OF wr(1)]
  have ms: "list_all (wf_node d) ?ms" "2 \<le> length ?ms" "length ?ms \<le> 8" by auto
  from append_mid_ok [OF ms(1-3) wr(2)]
  obtain rtree where rt: "append_mid ?ms rm = Some rtree" "wf_tree (d + 1) rtree"
    "tlist rtree = nslist ?ms @ tlist rm" by blast
  from "5.IH" [OF rt(1) wl(2) rt(2)]
  obtain m where m: "Tree_append lm rtree = Some m" "wf_tree (d + 1) m"
    "tlist m = tlist lm @ tlist rtree" by blast
  have "tsize m = tsize lm + dsize lr + dsize rl + tsize rm"
    using m rt ms wl wr by (simp add: wf_tree_size wf_digit_size)
  with rt m wl wr show ?case by simp
qed

subsection \<open>Iteration\<close>

text \<open>The elements a stack of frames still has to deliver, and the stacks that can arise.\<close>

fun frame_list :: "'a frame \<Rightarrow> 'a list" where
  "frame_list (FNode n) = nlist n"
| "frame_list (FDigit d) = dlist d"
| "frame_list (FTree t) = tlist t"

definition flist :: "'a frame list \<Rightarrow> 'a list" where
  "flist st = concat (map frame_list st)"

fun wf_frame :: "'a frame \<Rightarrow> bool" where
  "wf_frame (FNode n) = (\<exists>d. wf_node d n)"
| "wf_frame (FDigit dg) = (\<exists>d. wf_digit d dg)"
| "wf_frame (FTree t) = (\<exists>d. wf_tree d t)"

definition on_value :: "'a frame list \<Rightarrow> bool" where
  "on_value st = (st = [] \<or> (\<exists>v tl. st = FNode (Leaf v) # tl))"

lemma flist_simps [simp]:
  "flist [] = []" "flist (f # st) = frame_list f @ flist st"
  "flist (st @ st') = flist st @ flist st'"
  by (simp_all add: flist_def)

lemma flist_map_FNode [simp]: "flist (map FNode ns) = nslist ns"
  by (induction ns) simp_all

lemma wf_frame_map_FNode: "list_all (wf_node d) ns \<Longrightarrow> list_all wf_frame (map FNode ns)"
  by (induction ns) auto

lemma advance_ok:
  "list_all wf_frame st \<Longrightarrow>
   \<exists>st'. advance n st = Some st' \<and> list_all wf_frame st' \<and> on_value st' \<and>
         flist st' = drop n (flist st)"
proof (induction n st rule: advance.induct)
  case (1 n)
  then show ?case by (simp add: on_value_def)
next
  case (2 n v st)
  then show ?case by (cases n) (auto simp: on_value_def)
next
  case (3 n sz n0 n1 n2 st)
  from "3.prems" obtain d where d: "wf_node d (Branch sz n0 n1 n2)" and st: "list_all wf_frame st"
    by auto
  have sz: "length (nlist (Branch sz n0 n1 n2)) = sz" using wf_node_size [OF d] by simp
  show ?case
  proof (cases "n < sz")
    case True
    let ?st = "FNode n0 # FNode n1 # (case n2 of None \<Rightarrow> st | Some i2 \<Rightarrow> FNode i2 # st)"
    have "list_all wf_frame ?st" using d st by (auto split: option.splits)
    from "3.IH"(1) [OF True this] have "\<exists>st'. advance n ?st = Some st' \<and> list_all wf_frame st' \<and>
        on_value st' \<and> flist st' = drop n (flist ?st)" .
    moreover have "flist ?st = flist (FNode (Branch sz n0 n1 n2) # st)"
      by (simp split: option.splits)
    ultimately show ?thesis using True by simp
  next
    case False
    have "drop n (flist (FNode (Branch sz n0 n1 n2) # st)) = drop (n - sz) (flist st)"
      using False sz by (simp del: nlist.simps)
    with "3.IH"(2) [OF False st] False show ?thesis by (simp del: nlist.simps)
  qed
next
  case (4 n sz ns st)
  from "4.prems" obtain d where d: "wf_digit d (Digit sz ns)" and st: "list_all wf_frame st"
    by auto
  hence sz: "sz = length (nslist ns)" using wf_digit_size [OF d] by simp
  from d have len: "1 \<le> length ns \<and> length ns \<le> 4" and ns: "list_all (wf_node d) ns"
    by (auto simp: Suc_le_eq)
  show ?case
  proof (cases "n < sz")
    case True
    have "list_all wf_frame (map FNode ns @ st)" using wf_frame_map_FNode [OF ns] st by simp
    from "4.IH"(1) [OF True len this] True len show ?thesis by simp
  next
    case False
    from "4.IH"(2) [OF False st] False sz show ?thesis by simp
  qed
next
  case (5 n st)
  then show ?case by simp
next
  case (6 n x st)
  from "6.prems" obtain d where d: "wf_node d x" and st: "list_all wf_frame st" by auto
  show ?case
  proof (cases "n < nsize x")
    case True
    have "list_all wf_frame (FNode x # st)" using d st by auto
    from "6.IH"(1) [OF True this] True show ?thesis by simp
  next
    case False
    from "6.IH"(2) [OF False st] False wf_node_size [OF d] show ?thesis by simp
  qed
next
  case (7 n sz l m r st)
  from "7.prems" obtain d where d: "wf_tree d (Deep sz l m r)" and st: "list_all wf_frame st"
    by auto
  have sz: "length (tlist (Deep sz l m r)) = sz" using wf_tree_size [OF d] by simp
  show ?case
  proof (cases "n < sz")
    case True
    have "list_all wf_frame (FDigit l # FTree m # FDigit r # st)" using d st by auto
    from "7.IH"(1) [OF True this] True show ?thesis by simp
  next
    case False
    have "drop n (flist (FTree (Deep sz l m r) # st)) = drop (n - sz) (flist st)"
      using False sz by (simp del: tlist.simps)
    with "7.IH"(2) [OF False st] False show ?thesis by (simp del: tlist.simps)
  qed
qed

definition normal :: "'a frame list \<Rightarrow> bool" where
  "normal st = (list_all wf_frame st \<and> on_value st)"

lemma normal_Nil_iff: "normal st \<Longrightarrow> (st = []) = (flist st = [])"
  by (auto simp: normal_def on_value_def)

lemma normal_Cons:
  assumes "normal st" "st \<noteq> []"
  obtains v st' where "deref st = Some v" "incr st = Some st'" "normal st'"
    "flist st = v # flist st'"
proof -
  from assms obtain v tl where st: "st = FNode (Leaf v) # tl" and tl: "list_all wf_frame tl"
    by (auto simp: normal_def on_value_def)
  from advance_ok [OF tl, of 0] obtain st' where "advance 0 tl = Some st'"
    "list_all wf_frame st'" "on_value st'" "flist st' = flist tl" by auto
  with st that [of v st'] show thesis by (simp add: normal_def)
qed

lemma Sequence_begin_ok:
  assumes "wf_seq s"
  obtains st where "Sequence_begin s = Some st" "normal st" "flist st = tlist s"
proof -
  have "list_all wf_frame [FTree s]" using assms by (auto simp: wf_seq_def)
  from advance_ok [OF this, of 0] that show thesis
    by (auto simp: Sequence_begin_def normal_def)
qed

declare equal_iterator.simps [simp del] hash_loop.simps [simp del]

lemma equal_iterator_ok:
  "normal xs \<Longrightarrow> normal ys \<Longrightarrow> equal_iterator xs ys = Some (flist xs = flist ys)"
proof (induction xs ys rule: equal_iterator.induct)
  case (1 xs ys)
  show ?case
  proof (cases "xs \<noteq> [] \<and> ys \<noteq> []")
    case False
    with normal_Nil_iff [OF "1.prems"(1)] normal_Nil_iff [OF "1.prems"(2)]
    show ?thesis by (subst equal_iterator.simps) auto
  next
    case True
    from normal_Cons [OF "1.prems"(1)] True obtain x xs' where
      x: "deref xs = Some x" "incr xs = Some xs'" "normal xs'" "flist xs = x # flist xs'"
      by metis
    from normal_Cons [OF "1.prems"(2)] True obtain y ys' where
      y: "deref ys = Some y" "incr ys = Some ys'" "normal ys'" "flist ys = y # flist ys'"
      by metis
    show ?thesis
    proof (cases "x = y")
      case False
      with True x y show ?thesis by (subst equal_iterator.simps) simp
    next
      case eq: True
      from "1.IH" [OF True x(1) y(1) _ x(2) y(2) x(3) y(3)] eq
      have "equal_iterator xs' ys' = Some (flist xs' = flist ys')" by simp
      with True x y eq show ?thesis by (subst equal_iterator.simps) simp
    qed
  qed
qed

lemma hash_loop_ok:
  "normal it \<Longrightarrow>
   hash_loop h seed it = Some (foldl (\<lambda>s x. hash_combine s (h x)) seed (flist it))"
proof (induction h seed it rule: hash_loop.induct)
  case (1 h seed it)
  show ?case
  proof (cases "it = []")
    case True
    then show ?thesis by (subst hash_loop.simps) simp
  next
    case False
    from normal_Cons [OF "1.prems" False] obtain x it' where
      x: "deref it = Some x" "incr it = Some it'" "normal it'" "flist it = x # flist it'"
      by metis
    from "1.IH" [OF False x(1) x(2) x(3)] False x show ?thesis
      by (subst hash_loop.simps) simp
  qed
qed

lemma Sequence_eq_ok: "wf_seq s \<Longrightarrow> wf_seq t \<Longrightarrow> Sequence_eq s t = Inr (tlist s = tlist t)"
proof -
  assume s: "wf_seq s" and t: "wf_seq t"
  from Sequence_begin_ok [OF s] obtain xs where
    xs: "Sequence_begin s = Some xs" "normal xs" "flist xs = tlist s" .
  from Sequence_begin_ok [OF t] obtain ys where
    ys: "Sequence_begin t = Some ys" "normal ys" "flist ys = tlist t" .
  from equal_iterator_ok [OF xs(2) ys(2)] xs ys show ?thesis
    by (simp add: Sequence_eq_def lift_def)
qed

subsection \<open>The public operations\<close>

lemma lift_Some [simp]: "lift (Some x) = Inr x"
  by (simp add: lift_def)

lemma Sequence_push_back_ok:
  assumes "wf_seq s"
  obtains s' where "Sequence_push_back s v = Inr s'" "wf_seq s'" "tlist s' = tlist s @ [v]"
    "tsize s' = tsize s + 1"
  using assms Tree_push_back_ok [of 0 s "Leaf v"]
  by (auto simp: wf_seq_def Sequence_push_back_def)

lemma Sequence_push_front_ok:
  assumes "wf_seq s"
  obtains s' where "Sequence_push_front s v = Inr s'" "wf_seq s'" "tlist s' = v # tlist s"
    "tsize s' = tsize s + 1"
  using assms Tree_push_front_ok [of 0 s "Leaf v"]
  by (auto simp: wf_seq_def Sequence_push_front_def)

lemma Sequence_append_ok:
  assumes "wf_seq s" "wf_seq t"
  obtains r where "Sequence_append s t = Inr r" "wf_seq r" "tlist r = tlist s @ tlist t"
  using assms Tree_append_ok [of 0 s t]
  by (auto simp: wf_seq_def Sequence_append_def)

text \<open>
  \<^bold>\<open>C2.\<close> Concatenation of sequences is a monoid up to element-wise equality
  (\<^verbatim>\<open>operator ==\<close>): the empty sequence is a right and a left unit, and the two ways
  of bracketing a concatenation of three sequences both return, with equal results.
\<close>

theorem append_monoid:
  assumes "wf_seq s" "wf_seq t" "wf_seq u"
  shows "(\<exists>a. Sequence_append s Empty = Inr a \<and> Sequence_eq a s = Inr True) \<and>
         (\<exists>b. Sequence_append Empty s = Inr b \<and> Sequence_eq b s = Inr True) \<and>
         (\<exists>st l tu r. Sequence_append s t = Inr st \<and> Sequence_append st u = Inr l \<and>
                      Sequence_append t u = Inr tu \<and> Sequence_append s tu = Inr r \<and>
                      Sequence_eq l r = Inr True \<and> tlist l = tlist s @ tlist t @ tlist u)"
proof -
  have e: "wf_seq (Empty :: 'a sequence)" by (simp add: wf_seq_def)
  from Sequence_append_ok [OF assms(1) e] obtain a where
    a: "Sequence_append s Empty = Inr a" "wf_seq a" "tlist a = tlist s @ tlist Empty" .
  from Sequence_append_ok [OF e assms(1)] obtain b where
    b: "Sequence_append Empty s = Inr b" "wf_seq b" "tlist b = tlist Empty @ tlist s" .
  from Sequence_append_ok [OF assms(1,2)] obtain st where
    st: "Sequence_append s t = Inr st" "wf_seq st" "tlist st = tlist s @ tlist t" .
  from Sequence_append_ok [OF st(2) assms(3)] obtain l where
    l: "Sequence_append st u = Inr l" "wf_seq l" "tlist l = tlist st @ tlist u" .
  from Sequence_append_ok [OF assms(2,3)] obtain tu where
    tu: "Sequence_append t u = Inr tu" "wf_seq tu" "tlist tu = tlist t @ tlist u" .
  from Sequence_append_ok [OF assms(1) tu(2)] obtain r where
    r: "Sequence_append s tu = Inr r" "wf_seq r" "tlist r = tlist s @ tlist tu" .
  have "Sequence_eq a s = Inr True" using a assms(1) by (simp add: Sequence_eq_ok)
  moreover have "Sequence_eq b s = Inr True" using b assms(1) by (simp add: Sequence_eq_ok)
  moreover have "Sequence_eq l r = Inr True" using l r st tu by (simp add: Sequence_eq_ok)
  ultimately show ?thesis using a b st l tu r by simp
qed

theorem append_monoid_witness:
  "wf_seq (Single (Leaf (1::nat))) \<and>
   wf_seq (Deep 2 (Digit 1 [Leaf 2]) Empty (Digit 1 [Leaf (3::nat)])) \<and>
   wf_seq (Empty :: nat sequence) \<and>
   Sequence_append (Single (Leaf (1::nat))) Empty = Inr (Single (Leaf 1)) \<and>
   Sequence_append (Single (Leaf 1)) (Deep 2 (Digit 1 [Leaf 2]) Empty (Digit 1 [Leaf (3::nat)]))
     = Inr (Deep 3 (Digit 2 [Leaf 1, Leaf 2]) Empty (Digit 1 [Leaf 3]))"
  using append_monoid [of "Single (Leaf (1::nat))"
      "Deep 2 (Digit 1 [Leaf 2]) Empty (Digit 1 [Leaf (3::nat)])" Empty]
  by (simp add: wf_seq_def Sequence_append_def)

text \<open>
  \<^bold>\<open>C7.\<close> The hash of a sequence is the left-to-right fold of
  \<open>seed = hash(elem) + 0x9e3779b9 + (seed << 6) + (seed >> 2)\<close> over its elements in order,
  from the seed \<open>0x9e3779b9\<close>; hence every sequence equal to it element by element,
  whatever its tree shape, has the same hash.
\<close>

theorem Sequence_hash_fold:
  assumes "wf_seq s"
  shows "Sequence_hash h s =
           Inr (foldl (\<lambda>seed x. h x + 0x9e3779b9 + push_bit 6 seed + drop_bit 2 seed)
                  0x9e3779b9 (tlist s)) \<and>
         (\<forall>t. wf_seq t \<and> Sequence_eq s t = Inr True \<longrightarrow> Sequence_hash h t = Sequence_hash h s)"
proof -
  have fold: "Sequence_hash h x =
      Inr (foldl (\<lambda>seed x. h x + 0x9e3779b9 + push_bit 6 seed + drop_bit 2 seed)
             0x9e3779b9 (tlist x))" if "wf_seq x" for x
  proof -
    from Sequence_begin_ok [OF that] obtain it where
      it: "Sequence_begin x = Some it" "normal it" "flist it = tlist x" .
    from hash_loop_ok [OF it(2), of h "0x9e3779b9"] it show ?thesis
      by (simp add: Sequence_hash_def hash_combine_def)
  qed
  have "Sequence_hash h t = Sequence_hash h s" if "wf_seq t" "Sequence_eq s t = Inr True" for t
  proof -
    from that assms have "tlist s = tlist t" by (simp add: Sequence_eq_ok)
    with fold [OF assms] fold [OF that(1)] show ?thesis by simp
  qed
  with fold [OF assms] show ?thesis by blast
qed

theorem Sequence_hash_fold_witness:
  "wf_seq (Deep 2 (Digit 1 [Leaf 2]) Empty (Digit 1 [Leaf (3::nat)])) \<and>
   Sequence_hash of_nat (Deep 2 (Digit 1 [Leaf 2]) Empty (Digit 1 [Leaf (3::nat)]))
     = Inr 11130878690710"
  using Sequence_hash_fold [of "Deep 2 (Digit 1 [Leaf 2]) Empty (Digit 1 [Leaf (3::nat)])" of_nat]
  by (simp add: wf_seq_def)

subsection \<open>Views and pulls\<close>

lemma Digit_from_ok:
  assumes "1 \<le> length ns" "length ns \<le> 4"
  shows "Digit_from ns = Some (Digit (nssize ns) ns)"
proof -
  from assms consider "length ns = 1" | "length ns = 2" | "length ns = 3" | "length ns = 4"
    by linarith
  then show ?thesis
    by cases (auto simp: length_Suc_conv eval_nat_numeral Digit1_def Digit2_def Digit3_def
        Digit4_def)
qed

lemma Tree_from_ok:
  assumes "list_all (wf_node d) ns" "length ns \<le> 4"
  shows "\<exists>t. Tree_from ns = Some t \<and> wf_tree d t \<and> tlist t = nslist ns \<and> tsize t = nssize ns"
proof -
  from assms(2) consider "length ns = 0" | "length ns = 1" | "length ns = 2"
    | "length ns = 3" | "length ns = 4"
    by linarith
  then show ?thesis using assms(1)
    by cases (auto simp: length_Suc_conv eval_nat_numeral)
qed

lemma Tree_from_digit_ok:
  assumes "wf_digit d dg"
  shows "\<exists>t. Tree_from_digit dg = Some t \<and> wf_tree d t \<and> tlist t = dlist dg \<and>
             tsize t = dsize dg"
  using assms by (cases rule: wf_digit_cases) auto

lemma Digit_from_node_ok:
  assumes "wf_node (d + 1) n"
  shows "\<exists>dg. Digit_from_node n = Some dg \<and> wf_digit d dg \<and> dlist dg = nlist n \<and>
              dsize dg = nsize n"
  using assms by (cases n rule: Digit_from_node.cases) auto

lemma Digit_view_front_ok:
  assumes "wf_digit d dg" "order dg \<noteq> 1"
  shows "\<exists>h dg'. Digit_view_front dg = Some (h, dg') \<and> wf_node d h \<and> wf_digit d dg' \<and>
                 dlist dg = nlist h @ dlist dg' \<and> dsize dg = nsize h + dsize dg'"
  using assms by (cases rule: wf_digit_cases) auto

lemma Digit_view_back_ok:
  assumes "wf_digit d dg" "order dg \<noteq> 1"
  shows "\<exists>dg' x. Digit_view_back dg = Some (dg', x) \<and> wf_node d x \<and> wf_digit d dg' \<and>
                 dlist dg = dlist dg' @ nlist x \<and> dsize dg = dsize dg' + nsize x"
  using assms by (cases rule: wf_digit_cases) auto

lemma tlist_Empty_iff: "wf_tree d t \<Longrightarrow> (tlist t = []) = (t = Empty)"
proof (cases t)
  case (Single n)
  assume "wf_tree d t"
  with Single nlist_nonempty [of d n] show ?thesis by simp
next
  case (Deep sz l m r)
  assume "wf_tree d t"
  with Deep have "wf_digit d l" by simp
  then have "dlist l \<noteq> []" by (cases rule: wf_digit_cases) (auto dest: nlist_nonempty)
  with Deep show ?thesis by simp
qed simp

lemma Tree_view_front_ok:
  "wf_tree d t \<Longrightarrow> t \<noteq> Empty \<Longrightarrow>
   \<exists>x t'. Tree_view_front t = Some (x, t') \<and> wf_node d x \<and> wf_tree d t' \<and>
          tlist t = nlist x @ tlist t' \<and> tsize t = nsize x + tsize t'"
proof (induction t arbitrary: d)
  case Empty
  then show ?case by simp
next
  case (Single n)
  then show ?case by simp
next
  case (Deep sz l m r)
  from Deep.prems have wl: "wf_digit d l" and wm: "wf_tree (d + 1) m" and wr: "wf_digit d r"
    and sz: "sz = dsize l + tsize m + dsize r" by simp_all
  show ?case
  proof (cases "order l = 1")
    case False
    from Digit_view_front_ok [OF wl False] obtain h l' where
      h: "Digit_view_front l = Some (h, l')" "wf_node d h" "wf_digit d l'"
      "dlist l = nlist h @ dlist l'" "dsize l = nsize h + dsize l'" by blast
    have "Tree_view_front (Deep sz l m r) = Some (h, Deep (sz - nsize h) l' m r)"
      using False h(1) by (cases "ditems l" rule: Digit_from.cases) auto
    with h wm wr sz show ?thesis by simp
  next
    case True
    with wl obtain i0 where l: "l = Digit (nsize i0) [i0]" "wf_node d i0"
      by (cases rule: wf_digit_cases) auto
    have "\<exists>t. Tree_pull_left m r = Some t \<and> wf_tree d t \<and> tlist t = tlist m @ dlist r \<and>
              tsize t = tsize m + dsize r"
    proof (cases "m = Empty")
      case True
      with Tree_from_digit_ok [OF wr] show ?thesis by auto
    next
      case False
      from Deep.IH(1) [OF wm False] obtain x t' where
        x: "Tree_view_front m = Some (x, t')" "wf_node (d + 1) x" "wf_tree (d + 1) t'"
        "tlist m = nlist x @ tlist t'" "tsize m = nsize x + tsize t'" by blast
      from Digit_from_node_ok [OF x(2)] obtain dg where
        dg: "Digit_from_node x = Some dg" "wf_digit d dg" "dlist dg = nlist x"
        "dsize dg = nsize x" by blast
      from False x dg wr show ?thesis by simp
    qed
    then obtain t where "Tree_pull_left m r = Some t" "wf_tree d t"
      "tlist t = tlist m @ dlist r" "tsize t = tsize m + dsize r" by blast
    with l sz show ?thesis by simp
  qed
qed

lemma Tree_pull_left_ok:
  assumes "wf_tree (d + 1) m" "wf_digit d r"
  shows "\<exists>t. Tree_pull_left m r = Some t \<and> wf_tree d t \<and> tlist t = tlist m @ dlist r \<and>
             tsize t = tsize m + dsize r"
proof (cases "m = Empty")
  case True
  with Tree_from_digit_ok [OF assms(2)] show ?thesis by auto
next
  case False
  from Tree_view_front_ok [OF assms(1) False] obtain x t' where
    x: "Tree_view_front m = Some (x, t')" "wf_node (d + 1) x" "wf_tree (d + 1) t'"
    "tlist m = nlist x @ tlist t'" "tsize m = nsize x + tsize t'" by blast
  from Digit_from_node_ok [OF x(2)] obtain dg where
    dg: "Digit_from_node x = Some dg" "wf_digit d dg" "dlist dg = nlist x"
    "dsize dg = nsize x" by blast
  from False x dg assms(2) show ?thesis by simp
qed

lemma Tree_view_back_ok:
  "wf_tree d t \<Longrightarrow> t \<noteq> Empty \<Longrightarrow>
   \<exists>t' x. Tree_view_back t = Some (t', x) \<and> wf_node d x \<and> wf_tree d t' \<and>
          tlist t = tlist t' @ nlist x \<and> tsize t = tsize t' + nsize x"
proof (induction t arbitrary: d)
  case Empty
  then show ?case by simp
next
  case (Single n)
  then show ?case by simp
next
  case (Deep sz l m r)
  from Deep.prems have wl: "wf_digit d l" and wm: "wf_tree (d + 1) m" and wr: "wf_digit d r"
    and sz: "sz = dsize l + tsize m + dsize r" by simp_all
  show ?case
  proof (cases "order r = 1")
    case False
    from Digit_view_back_ok [OF wr False] obtain r' x where
      h: "Digit_view_back r = Some (r', x)" "wf_node d x" "wf_digit d r'"
      "dlist r = dlist r' @ nlist x" "dsize r = dsize r' + nsize x" by blast
    have "Tree_view_back (Deep sz l m r) = Some (Deep (sz - nsize x) l m r', x)"
      using False h(1) by (cases "ditems r" rule: Digit_from.cases) auto
    with h wm wl sz show ?thesis by simp
  next
    case True
    with wr obtain i0 where r: "r = Digit (nsize i0) [i0]" "wf_node d i0"
      by (cases rule: wf_digit_cases) auto
    have "\<exists>t. Tree_pull_right m l = Some t \<and> wf_tree d t \<and> tlist t = dlist l @ tlist m \<and>
              tsize t = tsize m + dsize l"
    proof (cases "m = Empty")
      case True
      with Tree_from_digit_ok [OF wl] show ?thesis by auto
    next
      case False
      from Deep.IH(1) [OF wm False] obtain t' x where
        x: "Tree_view_back m = Some (t', x)" "wf_node (d + 1) x" "wf_tree (d + 1) t'"
        "tlist m = tlist t' @ nlist x" "tsize m = tsize t' + nsize x" by blast
      from Digit_from_node_ok [OF x(2)] obtain dg where
        dg: "Digit_from_node x = Some dg" "wf_digit d dg" "dlist dg = nlist x"
        "dsize dg = nsize x" by blast
      from False x dg wl show ?thesis by simp
    qed
    then obtain t where "Tree_pull_right m l = Some t" "wf_tree d t"
      "tlist t = dlist l @ tlist m" "tsize t = tsize m + dsize l" by blast
    with r sz show ?thesis by simp
  qed
qed

lemma Tree_pull_right_ok:
  assumes "wf_tree (d + 1) m" "wf_digit d l"
  shows "\<exists>t. Tree_pull_right m l = Some t \<and> wf_tree d t \<and> tlist t = dlist l @ tlist m \<and>
             tsize t = tsize m + dsize l"
proof (cases "m = Empty")
  case True
  with Tree_from_digit_ok [OF assms(2)] show ?thesis by auto
next
  case False
  from Tree_view_back_ok [OF assms(1) False] obtain t' x where
    x: "Tree_view_back m = Some (t', x)" "wf_node (d + 1) x" "wf_tree (d + 1) t'"
    "tlist m = tlist t' @ nlist x" "tsize m = tsize t' + nsize x" by blast
  from Digit_from_node_ok [OF x(2)] obtain dg where
    dg: "Digit_from_node x = Some dg" "wf_digit d dg" "dlist dg = nlist x"
    "dsize dg = nsize x" by blast
  from False x dg assms(2) show ?thesis by simp
qed

declare Tree_pull_left.simps [simp del] Tree_pull_right.simps [simp del]

subsection \<open>Splitting\<close>

lemma find_item_ok:
  "list_all (wf_node d) ns \<Longrightarrow> i < nssize ns \<Longrightarrow>
   \<exists>pre x post j. find_item ns i = Some (pre, x, post, j) \<and> ns = pre @ x # post \<and>
                  j < nsize x \<and> i = nssize pre + j"
proof (induction ns arbitrary: i)
  case Nil
  then show ?case by simp
next
  case (Cons n ns)
  show ?case
  proof (cases "i < nsize n")
    case True
    then show ?thesis by simp
  next
    case False
    with Cons.prems have "list_all (wf_node d) ns" "i - nsize n < nssize ns" by auto
    from Cons.IH [OF this] obtain pre x post j where
      "find_item ns (i - nsize n) = Some (pre, x, post, j)" "ns = pre @ x # post"
      "j < nsize x" "i - nsize n = nssize pre + j" by blast
    with False show ?thesis by auto
  qed
qed

lemma digit_find_ok:
  assumes "wf_digit d dg" "i < dsize dg"
  shows "\<exists>pre x post j. find_item (ditems dg) i = Some (pre, x, post, j) \<and>
           list_all (wf_node d) pre \<and> wf_node d x \<and> list_all (wf_node d) post \<and>
           length pre + length post + 1 = order dg \<and> length pre \<le> 3 \<and> length post \<le> 3 \<and>
           j < nsize x \<and> i = nssize pre + j \<and>
           dlist dg = nslist pre @ nlist x @ nslist post \<and>
           dsize dg = nssize pre + nsize x + nssize post"
proof (cases dg)
  case (Digit sz ns)
  with assms have ns: "list_all (wf_node d) ns" "length ns \<le> 4" "sz = nssize ns" "i < nssize ns"
    by simp_all
  from find_item_ok [OF ns(1,4)] obtain pre x post j where
    f: "find_item ns i = Some (pre, x, post, j)" "ns = pre @ x # post"
    "j < nsize x" "i = nssize pre + j" by blast
  with ns Digit show ?thesis by auto
qed

lemma Tree_split_ok:
  "wf_tree d t \<Longrightarrow> i < tsize t \<Longrightarrow>
   \<exists>l x r. Tree_split t i = Some (l, x, r) \<and> wf_tree d l \<and> wf_node d x \<and> wf_tree d r \<and>
           tlist t = tlist l @ nlist x @ tlist r \<and> tsize l \<le> i \<and> i < tsize l + nsize x"
proof (induction t arbitrary: d i)
  case Empty
  then show ?case by simp
next
  case (Single n)
  then show ?case by simp
next
  case (Deep sz l m r)
  from Deep.prems have wl: "wf_digit d l" and wm: "wf_tree (d + 1) m" and wr: "wf_digit d r"
    and sz: "sz = dsize l + tsize m + dsize r" and i: "i < dsize l + tsize m + dsize r"
    by simp_all
  consider (left) "i < dsize l" | (middle) "\<not> i < dsize l" "i - dsize l < tsize m"
    | (right) "\<not> i < dsize l" "\<not> i - dsize l < tsize m" by blast
  then show ?case
  proof cases
    case left
    from digit_find_ok [OF wl left] obtain pre x post j where
      f: "find_item (ditems l) i = Some (pre, x, post, j)"
      "list_all (wf_node d) pre" "wf_node d x" "list_all (wf_node d) post"
      "length pre \<le> 3" "length post \<le> 3" "j < nsize x" "i = nssize pre + j"
      "dlist l = nslist pre @ nlist x @ nslist post" by blast
    from Tree_from_ok [OF f(2)] f(5) obtain lt where
      lt: "Tree_from pre = Some lt" "wf_tree d lt" "tlist lt = nslist pre"
      "tsize lt = nssize pre" by auto
    have "\<exists>rt. (if post = [] then Tree_pull_left m r
                else do { dg \<leftarrow> Digit_from post; Some (Deep3 dg m r) }) = Some rt \<and>
              wf_tree d rt \<and> tlist rt = nslist post @ tlist m @ dlist r"
    proof (cases "post = []")
      case True
      with Tree_pull_left_ok [OF wm wr] show ?thesis by auto
    next
      case False
      hence "1 \<le> length post" by (cases post) simp_all
      from Digit_from_ok [OF this] f(6) False f(4) wm wr show ?thesis by simp
    qed
    then obtain rt where rt: "(if post = [] then Tree_pull_left m r
        else do { dg \<leftarrow> Digit_from post; Some (Deep3 dg m r) }) = Some rt"
      "wf_tree d rt" "tlist rt = nslist post @ tlist m @ dlist r" by blast
    have "Tree_split (Deep sz l m r) i = Some (lt, x, rt)"
      using left f(1) lt(1) rt(1) by simp
    with f lt rt show ?thesis by simp
  next
    case right
    let ?i = "i - dsize l - tsize m"
    from right i have "?i < dsize r" by linarith
    from digit_find_ok [OF wr this] obtain pre x post j where
      f: "find_item (ditems r) ?i = Some (pre, x, post, j)"
      "list_all (wf_node d) pre" "wf_node d x" "list_all (wf_node d) post"
      "length pre \<le> 3" "length post \<le> 3" "j < nsize x" "?i = nssize pre + j"
      "dlist r = nslist pre @ nlist x @ nslist post" by blast
    from Tree_from_ok [OF f(4)] f(6) obtain rt where
      rt: "Tree_from post = Some rt" "wf_tree d rt" "tlist rt = nslist post" by auto
    have "\<exists>lt. (if pre = [] then Tree_pull_right m l
                else do { dg \<leftarrow> Digit_from pre; Some (Deep3 l m dg) }) = Some lt \<and>
              wf_tree d lt \<and> tlist lt = dlist l @ tlist m @ nslist pre \<and>
              tsize lt = dsize l + tsize m + nssize pre"
    proof (cases "pre = []")
      case True
      with Tree_pull_right_ok [OF wm wl] show ?thesis by auto
    next
      case False
      hence "1 \<le> length pre" by (cases pre) simp_all
      from Digit_from_ok [OF this] f(5) False f(2) wm wl show ?thesis by simp
    qed
    then obtain lt where lt: "(if pre = [] then Tree_pull_right m l
        else do { dg \<leftarrow> Digit_from pre; Some (Deep3 l m dg) }) = Some lt"
      "wf_tree d lt" "tlist lt = dlist l @ tlist m @ nslist pre"
      "tsize lt = dsize l + tsize m + nssize pre" by blast
    have "Tree_split (Deep sz l m r) i = Some (lt, x, rt)"
      using right f(1) lt(1) rt(1) by simp
    moreover have "tsize lt \<le> i" "i < tsize lt + nsize x"
      using lt(4) f(7,8) right by linarith+
    ultimately show ?thesis using f lt rt by simp
  next
    case middle
    let ?i = "i - dsize l"
    from Deep.IH(1) [OF wm middle(2)] obtain ltree node rtree where
      s: "Tree_split m ?i = Some (ltree, node, rtree)" "wf_tree (d + 1) ltree"
      "wf_node (d + 1) node" "wf_tree (d + 1) rtree"
      "tlist m = tlist ltree @ nlist node @ tlist rtree"
      "tsize ltree \<le> ?i" "?i < tsize ltree + nsize node" by blast
    from s(3) obtain bsz i0 i1 i2 where node: "node = Branch bsz i0 i1 i2"
      by (cases node) auto
    with s(3) have w: "wf_node d i0" "wf_node d i1"
      "case i2 of None \<Rightarrow> True | Some n \<Rightarrow> wf_node d n"
      "bsz = nsize i0 + nsize i1 + (case i2 of None \<Rightarrow> 0 | Some n \<Rightarrow> nsize n)"
      by (auto split: option.splits)
    let ?j = "?i - tsize ltree"
    have j: "?j < bsz" using s(6,7) node by simp
    have il: "i = dsize l + tsize ltree + ?j" using middle(1) s(6) by linarith
    consider (c0) "?j < nsize i0" | (c1) "\<not> ?j < nsize i0" "?j - nsize i0 < nsize i1"
      | (c2) "\<not> ?j < nsize i0" "\<not> ?j - nsize i0 < nsize i1" by blast
    then show ?thesis
    proof cases
      case c0
      from Tree_pull_right_ok [OF s(2) wl] obtain lt where
        lt: "Tree_pull_right ltree l = Some lt" "wf_tree d lt"
        "tlist lt = dlist l @ tlist ltree" "tsize lt = tsize ltree + dsize l" by blast
      let ?dg = "case i2 of None \<Rightarrow> Digit1 i1 | Some n2 \<Rightarrow> Digit2 i1 n2"
      have dg: "wf_digit d ?dg"
        "dlist ?dg = nlist i1 @ (case i2 of None \<Rightarrow> [] | Some n \<Rightarrow> nlist n)"
        using w by (auto split: option.splits)
      have "Tree_split (Deep sz l m r) i = Some (lt, i0, Deep3 ?dg rtree r)"
        using middle s(1) node c0 lt(1) by simp
      moreover have "tsize lt \<le> i" "i < tsize lt + nsize i0" using il lt(4) c0 by linarith+
      ultimately show ?thesis using lt dg w s node wr by simp
    next
      case c1
      have "\<exists>rt. (case i2 of None \<Rightarrow> Tree_pull_left rtree r
                   | Some n2 \<Rightarrow> Some (Deep3 (Digit1 n2) rtree r)) = Some rt \<and>
                wf_tree d rt \<and>
                tlist rt = (case i2 of None \<Rightarrow> [] | Some n \<Rightarrow> nlist n) @ tlist rtree @ dlist r"
      proof (cases i2)
        case None
        with Tree_pull_left_ok [OF s(4) wr] show ?thesis by auto
      next
        case (Some n2)
        with w s(4) wr show ?thesis by simp
      qed
      then obtain rt where rt: "(case i2 of None \<Rightarrow> Tree_pull_left rtree r
          | Some n2 \<Rightarrow> Some (Deep3 (Digit1 n2) rtree r)) = Some rt" "wf_tree d rt"
        "tlist rt = (case i2 of None \<Rightarrow> [] | Some n \<Rightarrow> nlist n) @ tlist rtree @ dlist r"
        by blast
      have "Tree_split (Deep sz l m r) i = Some (Deep3 l ltree (Digit1 i0), i1, rt)"
        using middle s(1) node c1 rt(1) by simp
      moreover have "dsize l + tsize ltree + nsize i0 \<le> i"
        "i < dsize l + tsize ltree + nsize i0 + nsize i1" using il c1 by linarith+
      ultimately show ?thesis using rt w s node wl by simp
    next
      case c2
      with j w(4) obtain n2 where n2: "i2 = Some n2" by (cases i2) auto
      from Tree_pull_left_ok [OF s(4) wr] obtain rt where
        rt: "Tree_pull_left rtree r = Some rt" "wf_tree d rt"
        "tlist rt = tlist rtree @ dlist r" by blast
      have "Tree_split (Deep sz l m r) i = Some (Deep3 l ltree (Digit2 i0 i1), n2, rt)"
        using middle s(1) node c2 rt(1) n2 by simp
      moreover have "dsize l + tsize ltree + nsize i0 + nsize i1 \<le> i"
        "i < dsize l + tsize ltree + nsize i0 + nsize i1 + nsize n2"
        using il c2 j w(4) n2 by simp_all
      ultimately show ?thesis using rt w s node wl n2 by simp
    qed
  qed
qed

lemma nssize_rev [simp]: "nssize (rev ns) = nssize ns"
  by (simp add: nssize_def rev_map [symmetric])

lemma digit_find_rev_ok:
  assumes "wf_digit d dg" "i < dsize dg"
  shows "\<exists>behind x ahead j. find_item (rev (ditems dg)) i = Some (behind, x, ahead, j) \<and>
           list_all (wf_node d) (rev behind) \<and> wf_node d x \<and>
           length behind \<le> 3 \<and> j < nsize x \<and> i = nssize (rev behind) + j \<and>
           (\<exists>rest. dlist dg = rest @ nlist x @ nslist (rev behind))"
proof (cases dg)
  case (Digit sz ns)
  with assms have ns: "list_all (wf_node d) (rev ns)" "length ns \<le> 4" "sz = nssize ns"
    "i < nssize (rev ns)"
    by simp_all
  from find_item_ok [OF ns(1,4)] obtain behind x ahead j where
    f: "find_item (rev ns) i = Some (behind, x, ahead, j)" "rev ns = behind @ x # ahead"
    "j < nsize x" "i = nssize behind + j" by blast
  from f(2) have "rev (rev ns) = rev (behind @ x # ahead)" by simp
  hence eq: "ns = rev ahead @ x # rev behind" by simp
  hence "dlist dg = nslist (rev ahead) @ nlist x @ nslist (rev behind)" using Digit by simp
  moreover have "list_all (wf_node d) (rev behind)" "wf_node d x" "length behind \<le> 3"
    using ns(1,2) eq by auto
  ultimately show ?thesis using f Digit by auto
qed

lemma Tree_take_front_ok:
  "wf_tree d t \<Longrightarrow> i < tsize t \<Longrightarrow>
   \<exists>l x. Tree_take_front t i = Some (l, x) \<and> wf_tree d l \<and> wf_node d x \<and>
         (\<exists>rest. tlist t = tlist l @ nlist x @ rest) \<and> tsize l \<le> i \<and> i < tsize l + nsize x"
proof (induction t arbitrary: d i)
  case Empty
  then show ?case by simp
next
  case (Single n)
  then show ?case by simp
next
  case (Deep sz l m r)
  from Deep.prems have wl: "wf_digit d l" and wm: "wf_tree (d + 1) m" and wr: "wf_digit d r"
    and sz: "sz = dsize l + tsize m + dsize r" and i: "i < dsize l + tsize m + dsize r"
    by simp_all
  consider (left) "i < dsize l" | (middle) "\<not> i < dsize l" "i - dsize l < tsize m"
    | (right) "\<not> i < dsize l" "\<not> i - dsize l < tsize m" by blast
  then show ?case
  proof cases
    case left
    from digit_find_ok [OF wl left] obtain pre x post j where
      f: "find_item (ditems l) i = Some (pre, x, post, j)"
      "list_all (wf_node d) pre" "wf_node d x"
      "length pre \<le> 3" "j < nsize x" "i = nssize pre + j"
      "dlist l = nslist pre @ nlist x @ nslist post" by blast
    from Tree_from_ok [OF f(2)] f(4) obtain lt where
      lt: "Tree_from pre = Some lt" "wf_tree d lt" "tlist lt = nslist pre"
      "tsize lt = nssize pre" by auto
    have "Tree_take_front (Deep sz l m r) i = Some (lt, x)"
      using left f(1) lt(1) by simp
    with f lt show ?thesis by simp
  next
    case right
    let ?i = "i - dsize l - tsize m"
    from right i have "?i < dsize r" by linarith
    from digit_find_ok [OF wr this] obtain pre x post j where
      f: "find_item (ditems r) ?i = Some (pre, x, post, j)"
      "list_all (wf_node d) pre" "wf_node d x"
      "length pre \<le> 3" "j < nsize x" "?i = nssize pre + j"
      "dlist r = nslist pre @ nlist x @ nslist post" by blast
    have "\<exists>lt. (if pre = [] then do { left \<leftarrow> Tree_pull_right m l; Some (left, x) }
                else do { dg \<leftarrow> Digit_from pre; Some (Deep3 l m dg, x) }) = Some (lt, x) \<and>
              wf_tree d lt \<and> tlist lt = dlist l @ tlist m @ nslist pre \<and>
              tsize lt = dsize l + tsize m + nssize pre"
    proof (cases "pre = []")
      case True
      with Tree_pull_right_ok [OF wm wl] show ?thesis by auto
    next
      case False
      hence "1 \<le> length pre" by (cases pre) simp_all
      from Digit_from_ok [OF this] f(4) False f(2) wm wl show ?thesis by simp
    qed
    then obtain lt where lt: "(if pre = [] then do { left \<leftarrow> Tree_pull_right m l; Some (left, x) }
        else do { dg \<leftarrow> Digit_from pre; Some (Deep3 l m dg, x) }) = Some (lt, x)"
      "wf_tree d lt" "tlist lt = dlist l @ tlist m @ nslist pre"
      "tsize lt = dsize l + tsize m + nssize pre" by blast
    have "Tree_take_front (Deep sz l m r) i = Some (lt, x)"
      using right f(1) lt(1) by simp
    moreover have "tsize lt \<le> i" "i < tsize lt + nsize x"
      using lt(4) f(5,6) right by linarith+
    ultimately show ?thesis using f lt by simp
  next
    case middle
    let ?i = "i - dsize l"
    from Deep.IH(1) [OF wm middle(2)] obtain tree node rest where
      s: "Tree_take_front m ?i = Some (tree, node)" "wf_tree (d + 1) tree"
      "wf_node (d + 1) node" "tlist m = tlist tree @ nlist node @ rest"
      "tsize tree \<le> ?i" "?i < tsize tree + nsize node" by blast
    from s(3) obtain bsz i0 i1 i2 where node: "node = Branch bsz i0 i1 i2"
      by (cases node) auto
    with s(3) have w: "wf_node d i0" "wf_node d i1"
      "case i2 of None \<Rightarrow> True | Some n \<Rightarrow> wf_node d n"
      "bsz = nsize i0 + nsize i1 + (case i2 of None \<Rightarrow> 0 | Some n \<Rightarrow> nsize n)"
      by (auto split: option.splits)
    let ?j = "?i - tsize tree"
    have j: "?j < bsz" using s(5,6) node by simp
    have il: "i = dsize l + tsize tree + ?j" using middle(1) s(5) by linarith
    consider (c0) "?j < nsize i0" | (c1) "\<not> ?j < nsize i0" "?j - nsize i0 < nsize i1"
      | (c2) "\<not> ?j < nsize i0" "\<not> ?j - nsize i0 < nsize i1" by blast
    then show ?thesis
    proof cases
      case c0
      from Tree_pull_right_ok [OF s(2) wl] obtain lt where
        lt: "Tree_pull_right tree l = Some lt" "wf_tree d lt"
        "tlist lt = dlist l @ tlist tree" "tsize lt = tsize tree + dsize l" by blast
      have "Tree_take_front (Deep sz l m r) i = Some (lt, i0)"
        using middle s(1) node c0 lt(1) by simp
      moreover have "tsize lt \<le> i" "i < tsize lt + nsize i0" using il lt(4) c0 by linarith+
      ultimately show ?thesis using lt w s node by simp
    next
      case c1
      have "Tree_take_front (Deep sz l m r) i = Some (Deep3 l tree (Digit1 i0), i1)"
        using middle s(1) node c1 by simp
      moreover have "dsize l + tsize tree + nsize i0 \<le> i"
        "i < dsize l + tsize tree + nsize i0 + nsize i1" using il c1 by linarith+
      ultimately show ?thesis using w s node wl by simp
    next
      case c2
      with j w(4) obtain n2 where n2: "i2 = Some n2" by (cases i2) auto
      have "Tree_take_front (Deep sz l m r) i = Some (Deep3 l tree (Digit2 i0 i1), n2)"
        using middle s(1) node c2 n2 by simp
      moreover have "dsize l + tsize tree + nsize i0 + nsize i1 \<le> i"
        "i < dsize l + tsize tree + nsize i0 + nsize i1 + nsize n2"
        using il c2 j w(4) n2 by simp_all
      ultimately show ?thesis using w s node wl n2 by simp
    qed
  qed
qed

lemma Tree_take_back_ok:
  "wf_tree d t \<Longrightarrow> i < tsize t \<Longrightarrow>
   \<exists>x r. Tree_take_back t i = Some (x, r) \<and> wf_tree d r \<and> wf_node d x \<and>
         (\<exists>rest. tlist t = rest @ nlist x @ tlist r) \<and> tsize r \<le> i \<and> i < tsize r + nsize x"
proof (induction t arbitrary: d i)
  case Empty
  then show ?case by simp
next
  case (Single n)
  then show ?case by simp
next
  case (Deep sz l m r)
  from Deep.prems have wl: "wf_digit d l" and wm: "wf_tree (d + 1) m" and wr: "wf_digit d r"
    and sz: "sz = dsize l + tsize m + dsize r" and i: "i < dsize l + tsize m + dsize r"
    by simp_all
  consider (right) "i < dsize r" | (middle) "\<not> i < dsize r" "i - dsize r < tsize m"
    | (left) "\<not> i < dsize r" "\<not> i - dsize r < tsize m" by blast
  then show ?case
  proof cases
    case right
    from digit_find_rev_ok [OF wr right] obtain behind x ahead j rest where
      f: "find_item (rev (ditems r)) i = Some (behind, x, ahead, j)"
      "list_all (wf_node d) (rev behind)" "wf_node d x"
      "length behind \<le> 3" "j < nsize x" "i = nssize (rev behind) + j"
      "dlist r = rest @ nlist x @ nslist (rev behind)" by blast
    from Tree_from_ok [OF f(2)] f(4) obtain rt where
      rt: "Tree_from (rev behind) = Some rt" "wf_tree d rt" "tlist rt = nslist (rev behind)"
      "tsize rt = nssize (rev behind)" by auto
    have "Tree_take_back (Deep sz l m r) i = Some (x, rt)"
      using right f(1) rt(1) by simp
    moreover have "tlist (Deep sz l m r) = (dlist l @ tlist m @ rest) @ nlist x @ tlist rt"
      using f(7) rt(3) by simp
    ultimately show ?thesis using f rt by (simp del: tlist.simps; blast)
  next
    case left
    let ?i = "i - dsize r - tsize m"
    from left i have "?i < dsize l" by linarith
    from digit_find_rev_ok [OF wl this] obtain behind x ahead j rest where
      f: "find_item (rev (ditems l)) ?i = Some (behind, x, ahead, j)"
      "list_all (wf_node d) (rev behind)" "wf_node d x"
      "length behind \<le> 3" "j < nsize x" "?i = nssize (rev behind) + j"
      "dlist l = rest @ nlist x @ nslist (rev behind)" by blast
    have "\<exists>rt. (if behind = [] then do { right \<leftarrow> Tree_pull_left m r; Some (x, right) }
                else do { dg \<leftarrow> Digit_from (rev behind); Some (x, Deep3 dg m r) })
                = Some (x, rt) \<and>
              wf_tree d rt \<and> tlist rt = nslist (rev behind) @ tlist m @ dlist r \<and>
              tsize rt = nssize (rev behind) + tsize m + dsize r"
    proof (cases "behind = []")
      case True
      with Tree_pull_left_ok [OF wm wr] show ?thesis by auto
    next
      case False
      hence "1 \<le> length (rev behind)" by (cases behind) simp_all
      from Digit_from_ok [OF this] f(4) False f(2) wm wr show ?thesis by simp
    qed
    then obtain rt where rt: "(if behind = [] then do { right \<leftarrow> Tree_pull_left m r; Some (x, right) }
        else do { dg \<leftarrow> Digit_from (rev behind); Some (x, Deep3 dg m r) }) = Some (x, rt)"
      "wf_tree d rt" "tlist rt = nslist (rev behind) @ tlist m @ dlist r"
      "tsize rt = nssize (rev behind) + tsize m + dsize r" by blast
    have "Tree_take_back (Deep sz l m r) i = Some (x, rt)"
      using left f(1) rt(1) by simp
    moreover have "tsize rt \<le> i" "i < tsize rt + nsize x"
      using rt(4) f(5,6) left by linarith+
    moreover have "tlist (Deep sz l m r) = rest @ nlist x @ tlist rt"
      using f(7) rt(3) by simp
    ultimately show ?thesis using f rt by (simp del: tlist.simps; blast)
  next
    case middle
    let ?i = "i - dsize r"
    from Deep.IH(1) [OF wm middle(2)] obtain node tree rest where
      s: "Tree_take_back m ?i = Some (node, tree)" "wf_tree (d + 1) tree"
      "wf_node (d + 1) node" "tlist m = rest @ nlist node @ tlist tree"
      "tsize tree \<le> ?i" "?i < tsize tree + nsize node" by blast
    from s(3) obtain bsz i0 i1 i2 where node: "node = Branch bsz i0 i1 i2"
      by (cases node) auto
    with s(3) have w: "wf_node d i0" "wf_node d i1"
      "case i2 of None \<Rightarrow> True | Some n \<Rightarrow> wf_node d n"
      "bsz = nsize i0 + nsize i1 + (case i2 of None \<Rightarrow> 0 | Some n \<Rightarrow> nsize n)"
      by (auto split: option.splits)
    let ?j = "?i - tsize tree"
    have j: "?j < bsz" using s(5,6) node by simp
    have il: "i = dsize r + tsize tree + ?j" using middle(1) s(5) by linarith
    from Tree_pull_left_ok [OF s(2) wr] obtain rt where
      rt: "Tree_pull_left tree r = Some rt" "wf_tree d rt"
      "tlist rt = tlist tree @ dlist r" "tsize rt = tsize tree + dsize r" by blast
    show ?thesis
    proof (cases i2)
      case None
      show ?thesis
      proof (cases "?j < nsize i1")
        case True
        have "Tree_take_back (Deep sz l m r) i = Some (i1, rt)"
          using middle s(1) node None True rt(1) by simp
        moreover have "tsize rt \<le> i" "i < tsize rt + nsize i1" using il rt(4) True by linarith+
        moreover have "tlist (Deep sz l m r) = (dlist l @ rest @ nlist i0) @ nlist i1 @ tlist rt"
          using s(4) node None rt(3) by simp
        ultimately show ?thesis using rt w by (simp del: tlist.simps; blast)
      next
        case False
        have "Tree_take_back (Deep sz l m r) i = Some (i0, Deep3 (Digit1 i1) tree r)"
          using middle s(1) node None False by simp
        moreover have "dsize r + tsize tree + nsize i1 \<le> i"
          "i < dsize r + tsize tree + nsize i1 + nsize i0"
          using il False j w(4) None by simp_all
        moreover have "tlist (Deep sz l m r) =
            (dlist l @ rest) @ nlist i0 @ tlist (Deep3 (Digit1 i1) tree r)"
          using s(4) node None by simp
        moreover have "wf_tree d (Deep3 (Digit1 i1) tree r)" using w s(2) wr by simp
        ultimately show ?thesis using w by (simp del: tlist.simps Deep3_simps(2); blast)
      qed
    next
      case (Some n2)
      with w have wn2: "wf_node d n2" by simp
      consider (c2) "?j < nsize n2" | (c1) "\<not> ?j < nsize n2" "?j - nsize n2 < nsize i1"
        | (c0) "\<not> ?j < nsize n2" "\<not> ?j - nsize n2 < nsize i1" by blast
      then show ?thesis
      proof cases
        case c2
        have "Tree_take_back (Deep sz l m r) i = Some (n2, rt)"
          using middle s(1) node Some c2 rt(1) by simp
        moreover have "tsize rt \<le> i" "i < tsize rt + nsize n2" using il rt(4) c2 by linarith+
        moreover have "tlist (Deep sz l m r) =
            (dlist l @ rest @ nlist i0 @ nlist i1) @ nlist n2 @ tlist rt"
          using s(4) node Some rt(3) by simp
        ultimately show ?thesis using rt wn2 by (simp del: tlist.simps; blast)
      next
        case c1
        have "Tree_take_back (Deep sz l m r) i = Some (i1, Deep3 (Digit1 n2) tree r)"
          using middle s(1) node Some c1 by simp
        moreover have "dsize r + tsize tree + nsize n2 \<le> i"
          "i < dsize r + tsize tree + nsize n2 + nsize i1" using il c1 by linarith+
        moreover have "tlist (Deep sz l m r) =
            (dlist l @ rest @ nlist i0) @ nlist i1 @ tlist (Deep3 (Digit1 n2) tree r)"
          using s(4) node Some by simp
        moreover have "wf_tree d (Deep3 (Digit1 n2) tree r)" using wn2 s(2) wr by simp
        ultimately show ?thesis using w by (simp del: tlist.simps Deep3_simps(2); blast)
      next
        case c0
        have "Tree_take_back (Deep sz l m r) i = Some (i0, Deep3 (Digit2 i1 n2) tree r)"
          using middle s(1) node Some c0 by simp
        moreover have "dsize r + tsize tree + nsize n2 + nsize i1 \<le> i"
          "i < dsize r + tsize tree + nsize n2 + nsize i1 + nsize i0"
          using il c0 j w(4) Some by simp_all
        moreover have "tlist (Deep sz l m r) =
            (dlist l @ rest) @ nlist i0 @ tlist (Deep3 (Digit2 i1 n2) tree r)"
          using s(4) node Some by simp
        moreover have "wf_tree d (Deep3 (Digit2 i1 n2) tree r)" using w wn2 s(2) wr by simp
        ultimately show ?thesis using w by (simp del: tlist.simps Deep3_simps(2); blast)
      qed
    qed
  qed
qed

subsection \<open>Splitting and slicing sequences\<close>

lemma wf_node_0: "wf_node 0 x \<Longrightarrow> \<exists>v. x = Leaf v"
  by (cases x) auto

lemma wf_seq_size: "wf_seq s \<Longrightarrow> tsize s = length (tlist s)"
  by (simp add: wf_seq_def wf_tree_size)

lemma wf_seq_Empty [simp]: "wf_seq Empty"
  by (simp add: wf_seq_def)

lemma Sequence_split_ok:
  assumes "wf_seq s" "i < tsize s"
  obtains l v r where "Sequence_split s i = Inr (l, v, r)" "wf_seq l" "wf_seq r"
    "tlist l = take i (tlist s)" "v = tlist s ! i" "tlist r = drop (Suc i) (tlist s)"
proof -
  from Tree_split_ok [of 0 s i] assms obtain l x r where
    s: "Tree_split s i = Some (l, x, r)" "wf_tree 0 l" "wf_node 0 x" "wf_tree 0 r"
    "tlist s = tlist l @ nlist x @ tlist r" "tsize l \<le> i" "i < tsize l + nsize x"
    by (auto simp: wf_seq_def)
  from wf_node_0 [OF s(3)] obtain v where x: "x = Leaf v" by blast
  with s(6,7) have "tsize l = i" by simp
  hence len: "length (tlist l) = i" using wf_tree_size [OF s(2)] by simp
  have "Sequence_split s i = Inr (l, v, r)"
    using assms(2) s(1) x by (simp add: Sequence_split_def)
  moreover have "tlist l = take i (tlist s)" using s(5) len by simp
  moreover have "v = tlist s ! i" using s(5) len x by (simp add: nth_append)
  moreover have "tlist r = drop (Suc i) (tlist s)" using s(5) len x by simp
  ultimately show thesis using that s(2,4) by (simp add: wf_seq_def)
qed

lemma Sequence_take_front_ok:
  assumes "wf_seq s"
  obtains t where "Sequence_take_front s i = Inr t" "wf_seq t" "tlist t = take i (tlist s)"
proof -
  consider "i = 0" | "i \<noteq> 0" "tsize s \<le> i" | "i \<noteq> 0" "i < tsize s" by linarith
  then show thesis
  proof cases
    case 1
    with that [of Empty] show thesis by (simp add: Sequence_take_front_def)
  next
    case 2
    with that [of s] assms wf_seq_size [OF assms] show thesis
      by (simp add: Sequence_take_front_def)
  next
    case 3
    from Tree_take_front_ok [of 0 s i] assms 3 obtain l x rest where
      s: "Tree_take_front s i = Some (l, x)" "wf_tree 0 l" "wf_node 0 x"
      "tlist s = tlist l @ nlist x @ rest" "tsize l \<le> i" "i < tsize l + nsize x"
      by (auto simp: wf_seq_def)
    from wf_node_0 [OF s(3)] s(5,6) have "tsize l = i" by auto
    hence "length (tlist l) = i" using wf_tree_size [OF s(2)] by simp
    hence "tlist l = take i (tlist s)" using s(4) by simp
    moreover have "Sequence_take_front s i = Inr l"
      using 3 s(1) by (simp add: Sequence_take_front_def)
    ultimately show thesis using that [of l] s(2) by (simp add: wf_seq_def)
  qed
qed

lemma Sequence_take_back_ok:
  assumes "wf_seq s"
  obtains t where "Sequence_take_back s i = Inr t" "wf_seq t"
    "tlist t = drop (length (tlist s) - i) (tlist s)" "i = 0 \<longrightarrow> t = Empty"
proof -
  consider "i = 0" | "i \<noteq> 0" "tsize s \<le> i" | "i \<noteq> 0" "i < tsize s" by linarith
  then show thesis
  proof cases
    case 1
    with that [of Empty] show thesis by (simp add: Sequence_take_back_def)
  next
    case 2
    with that [of s] assms wf_seq_size [OF assms] show thesis
      by (simp add: Sequence_take_back_def)
  next
    case 3
    from Tree_take_back_ok [of 0 s i] assms 3 obtain x r rest where
      s: "Tree_take_back s i = Some (x, r)" "wf_tree 0 r" "wf_node 0 x"
      "tlist s = rest @ nlist x @ tlist r" "tsize r \<le> i" "i < tsize r + nsize x"
      by (auto simp: wf_seq_def)
    from wf_node_0 [OF s(3)] s(5,6) have "tsize r = i" by auto
    hence len: "length (tlist r) = i" using wf_tree_size [OF s(2)] by simp
    have "tlist s = (rest @ nlist x) @ tlist r" using s(4) by simp
    hence "drop (length (tlist s) - i) (tlist s) = tlist r" using len
      by (simp del: append_assoc)
    moreover have "Sequence_take_back s i = Inr r"
      using 3 s(1) by (simp add: Sequence_take_back_def)
    ultimately show thesis using that [of r] s(2) 3 by (simp add: wf_seq_def)
  qed
qed

lemma Sequence_drop_front_ok:
  assumes "wf_seq s"
  obtains t where "Sequence_drop_front s i = Inr t" "wf_seq t" "tlist t = drop i (tlist s)"
    "tsize s \<le> i \<longrightarrow> t = Empty"
proof -
  let ?k = "tsize s - min (tsize s) i"
  from Sequence_take_back_ok [OF assms, of ?k] obtain t where
    t: "Sequence_take_back s ?k = Inr t" "wf_seq t"
    "tlist t = drop (length (tlist s) - ?k) (tlist s)" "?k = 0 \<longrightarrow> t = Empty" .
  have "drop (length (tlist s) - ?k) (tlist s) = drop i (tlist s)"
  proof (cases "i \<le> tsize s")
    case True
    then show ?thesis using wf_seq_size [OF assms] by simp
  next
    case False
    then show ?thesis using wf_seq_size [OF assms] by simp
  qed
  with t that [of t] show thesis by (simp add: Sequence_drop_front_def)
qed

text \<open>
  \<^bold>\<open>C1.\<close> Splitting a sequence at an index below its size returns the elements before
  the index, the element at the index and the elements after it, and pushing the
  element onto the back of the left part and appending the right part gives a
  sequence equal to the original.  At an index that is not below the size the call
  raises the out-of-range error.
\<close>

theorem split_rejoin:
  assumes "wf_seq s"
  shows "(i < tsize s \<longrightarrow>
           (\<exists>l v r lv j. Sequence_split s i = Inr (l, v, r) \<and>
              Sequence_push_back l v = Inr lv \<and> Sequence_append lv r = Inr j \<and>
              Sequence_eq j s = Inr True \<and>
              tlist l = take i (tlist s) \<and> v = tlist s ! i \<and> tlist r = drop (Suc i) (tlist s))) \<and>
         (tsize s \<le> i \<longrightarrow> Sequence_split s i = Inl OutOfRange)"
proof -
  have "\<exists>l v r lv j. Sequence_split s i = Inr (l, v, r) \<and>
              Sequence_push_back l v = Inr lv \<and> Sequence_append lv r = Inr j \<and>
              Sequence_eq j s = Inr True \<and>
              tlist l = take i (tlist s) \<and> v = tlist s ! i \<and> tlist r = drop (Suc i) (tlist s)"
    if i: "i < tsize s"
  proof -
    from Sequence_split_ok [OF assms i] obtain l v r where
      s: "Sequence_split s i = Inr (l, v, r)" "wf_seq l" "wf_seq r"
      "tlist l = take i (tlist s)" "v = tlist s ! i" "tlist r = drop (Suc i) (tlist s)" .
    from Sequence_push_back_ok [OF s(2)] obtain lv where
      lv: "Sequence_push_back l v = Inr lv" "wf_seq lv" "tlist lv = tlist l @ [v]" .
    from Sequence_append_ok [OF lv(2) s(3)] obtain j where
      j: "Sequence_append lv r = Inr j" "wf_seq j" "tlist j = tlist lv @ tlist r" .
    have "i < length (tlist s)" using i wf_seq_size [OF assms] by simp
    hence "tlist j = tlist s" using j(3) lv(3) s(4,5,6)
      by (simp add: take_Suc_conv_app_nth [symmetric])
    hence "Sequence_eq j s = Inr True" using j(2) assms by (simp add: Sequence_eq_ok)
    with s lv j show ?thesis by blast
  qed
  moreover have "Sequence_split s i = Inl OutOfRange" if "tsize s \<le> i"
    using that by (simp add: Sequence_split_def)
  ultimately show ?thesis by blast
qed

theorem split_rejoin_witness:
  "wf_seq (Deep 3 (Digit 2 [Leaf (1::nat), Leaf 2]) Empty (Digit 1 [Leaf 3])) \<and>
   Sequence_split (Deep 3 (Digit 2 [Leaf (1::nat), Leaf 2]) Empty (Digit 1 [Leaf 3])) 1
     = Inr (Single (Leaf 1), 2, Single (Leaf 3)) \<and>
   Sequence_split (Deep 3 (Digit 2 [Leaf (1::nat), Leaf 2]) Empty (Digit 1 [Leaf 3])) 3
     = Inl OutOfRange"
  using split_rejoin [of "Deep 3 (Digit 2 [Leaf (1::nat), Leaf 2]) Empty (Digit 1 [Leaf 3])" 1]
    split_rejoin [of "Deep 3 (Digit 2 [Leaf (1::nat), Leaf 2]) Empty (Digit 1 [Leaf 3])" 3]
  by (simp add: wf_seq_def Sequence_split_def Tree_pull_left.simps Tree_pull_right.simps)

text \<open>
  \<^bold>\<open>C4.\<close> The two-index slice returns what \<open>take_front(right)\<close> followed by
  \<open>drop_front(left)\<close> returns: the elements at the positions from \<open>left\<close> up to
  \<open>right\<close>, both clamped to the length, and the empty sequence whenever
  \<open>left \<ge> right\<close>.
\<close>

theorem at2_take_drop:
  assumes "wf_seq s"
  shows "\<exists>t u. Sequence_take_front s right = Inr t \<and> Sequence_drop_front t left = Inr u \<and>
               Sequence_at2 s left right = Inr u \<and> wf_seq u \<and>
               tlist u = drop (min left (tsize s)) (take (min right (tsize s)) (tlist s)) \<and>
               (right \<le> left \<longrightarrow> u = Empty)"
proof -
  from Sequence_take_front_ok [OF assms] obtain t where
    t: "Sequence_take_front s right = Inr t" "wf_seq t" "tlist t = take right (tlist s)" .
  from Sequence_drop_front_ok [OF t(2)] obtain u where
    u: "Sequence_drop_front t left = Inr u" "wf_seq u" "tlist u = drop left (tlist t)"
    "tsize t \<le> left \<longrightarrow> u = Empty" .
  have n: "tsize s = length (tlist s)" by (rule wf_seq_size [OF assms])
  have "tsize t = min right (tsize s)" using wf_seq_size [OF t(2)] t(3) n by simp
  hence "right \<le> left \<longrightarrow> u = Empty" using u(4) by simp
  moreover have "drop left (take right (tlist s)) =
      drop (min left (tsize s)) (take (min right (tsize s)) (tlist s))"
    using n by (simp add: min_def)
  moreover have "Sequence_at2 s left right = Inr u"
  proof -
    from Sequence_drop_front_ok [OF assms, of left] obtain d2 where
      d2: "Sequence_drop_front s left = Inr d2" by blast
    show ?thesis using t(1) d2 u(1)
      by (cases "left = 0"; cases "tsize s \<le> right") (simp_all add: Sequence_at2_def)
  qed
  ultimately show ?thesis using t u by simp
qed

theorem at2_take_drop_witness:
  "wf_seq (Deep 3 (Digit 2 [Leaf (1::nat), Leaf 2]) Empty (Digit 1 [Leaf 3])) \<and>
   Sequence_at2 (Deep 3 (Digit 2 [Leaf (1::nat), Leaf 2]) Empty (Digit 1 [Leaf 3])) 2 1 = Inr Empty"
  using at2_take_drop [of "Deep 3 (Digit 2 [Leaf (1::nat), Leaf 2]) Empty (Digit 1 [Leaf 3])" 1 2]
  by (auto simp: wf_seq_def)

text \<open>
  \<^bold>\<open>C9.\<close> A slice assignment of step 1 whose left index exceeds its right index removes
  nothing: the result is \<open>take_front(left)\<close>, then the new values, then
  \<open>drop_front(left)\<close>, so the values are spliced in at \<open>left\<close> and every element of
  the sequence is kept.
\<close>

theorem set3_inverted_keeps_all:
  assumes "wf_seq s" "wf_seq vs" "right < left"
  shows "\<exists>a b c e. Sequence_take_front s left = Inr a \<and> Sequence_append a vs = Inr b \<and>
                   Sequence_drop_front s left = Inr c \<and> Sequence_append b c = Inr e \<and>
                   Sequence_set3 s left right vs = Inr e \<and>
                   tlist e = take left (tlist s) @ tlist vs @ drop left (tlist s) \<and>
                   length (tlist e) = length (tlist s) + length (tlist vs)"
proof -
  from Sequence_take_front_ok [OF assms(1)] obtain a where
    a: "Sequence_take_front s left = Inr a" "wf_seq a" "tlist a = take left (tlist s)" .
  from Sequence_append_ok [OF a(2) assms(2)] obtain b where
    b: "Sequence_append a vs = Inr b" "wf_seq b" "tlist b = tlist a @ tlist vs" .
  from Sequence_drop_front_ok [OF assms(1)] obtain c where
    c: "Sequence_drop_front s left = Inr c" "wf_seq c" "tlist c = drop left (tlist s)" .
  from Sequence_append_ok [OF b(2) c(2)] obtain e where
    e: "Sequence_append b c = Inr e" "wf_seq e" "tlist e = tlist b @ tlist c" .
  have "Sequence_set3 s left right vs = Inr e"
    using assms(3) a(1) b(1) c(1) e(1) by (simp add: Sequence_set3_def)
  moreover have "tlist e = take left (tlist s) @ tlist vs @ drop left (tlist s)"
    using a b c e by simp
  moreover from this have "length (tlist e) = length (tlist s) + length (tlist vs)"
    by simp
  ultimately show ?thesis using a b c e by blast
qed

theorem set3_inverted_keeps_all_witness:
  "wf_seq (Deep 3 (Digit 2 [Leaf (1::nat), Leaf 2]) Empty (Digit 1 [Leaf 3])) \<and>
   wf_seq (Single (Leaf (9::nat))) \<and> (0::nat) < 2 \<and>
   (\<exists>e. Sequence_set3 (Deep 3 (Digit 2 [Leaf (1::nat), Leaf 2]) Empty (Digit 1 [Leaf 3])) 2 0
          (Single (Leaf (9::nat))) = Inr e \<and> tlist e = [1, 2, 9, 3])"
  using set3_inverted_keeps_all [of "Deep 3 (Digit 2 [Leaf (1::nat), Leaf 2]) Empty (Digit 1 [Leaf 3])"
      "Single (Leaf (9::nat))" 0 2]
  by (auto simp: wf_seq_def)

subsection \<open>Insertion\<close>

text \<open>The list \<open>xs\<close> with \<open>v\<close> put in front of position \<open>i\<close>.\<close>

definition ins :: "nat \<Rightarrow> 'a \<Rightarrow> 'a list \<Rightarrow> 'a list" where
  "ins i v xs = take i xs @ v # drop i xs"

lemma ins_append1: "i < length xs \<Longrightarrow> ins i v (xs @ ys) = ins i v xs @ ys"
  by (simp add: ins_def)

lemma ins_append2: "length xs \<le> i \<Longrightarrow> ins i v (xs @ ys) = xs @ ins (i - length xs) v ys"
  by (simp add: ins_def)

lemma length_ins [simp]: "length (ins i v xs) = Suc (length xs)"
  by (simp add: ins_def)

lemma wf_extras [simp]:
  "list_all (wf_node d) (extras e) = (case e of None \<Rightarrow> True | Some x \<Rightarrow> wf_node d x)"
  by (cases e) simp_all

lemma Node_insert_ok:
  "wf_node d n \<Longrightarrow> i < nsize n \<Longrightarrow>
   \<exists>n' e. Node_insert n i v = Some (n', e) \<and> wf_node d n' \<and> list_all (wf_node d) (extras e) \<and>
          nlist n' @ nslist (extras e) = ins i v (nlist n)"
proof (induction n arbitrary: d i)
  case (Leaf u)
  then show ?case by (simp add: ins_def)
next
  case (Branch sz i0 i1 i2)
  from Branch.prems have d: "0 < d" and w0: "wf_node (d - 1) i0" and w1: "wf_node (d - 1) i1"
    and w2: "list_all (wf_node (d - 1)) (extras i2)"
    and sz: "sz = nsize i0 + nsize i1 + nssize (extras i2)" and i: "i < sz"
    by (auto split: option.splits)
  note len = wf_node_size [OF w0] wf_node_size [OF w1]
  have l: "nlist (Branch sz i0 i1 i2) = nlist i0 @ nlist i1 @ nslist (extras i2)"
    by (cases i2) simp_all
  consider (c0) "i < nsize i0" | (c1) "\<not> i < nsize i0" "i - nsize i0 < nsize i1"
    | (c2) "\<not> i < nsize i0" "\<not> i - nsize i0 < nsize i1" by blast
  then show ?case
  proof cases
    case c0
    from Branch.IH(1) [OF w0 c0] obtain n' e where
      r: "Node_insert i0 i v = Some (n', e)" "wf_node (d - 1) n'"
      "list_all (wf_node (d - 1)) (extras e)"
      "nlist n' @ nslist (extras e) = ins i v (nlist i0)" by blast
    have tot: "ins i v (nlist (Branch sz i0 i1 i2)) =
        nlist n' @ nslist (extras e) @ nlist i1 @ nslist (extras i2)"
      using c0 len r(4) by (simp add: l ins_append1 del: nlist.simps)
    have nsz: "nsize n' + nssize (extras e) = nsize i0 + 1"
      using arg_cong [OF r(4), of length] wf_node_size [OF r(2)] wf_nodes_size [OF r(3)] len
      by simp
    show ?thesis
    proof (cases e)
      case None
      with r d w1 w2 sz nsz tot show ?thesis using c0 by (cases i2) auto
    next
      case (Some x)
      with r d w1 w2 sz nsz tot show ?thesis using c0 by (cases i2) auto
    qed
  next
    case c1
    from Branch.IH(2) [OF w1 c1(2)] obtain n' e where
      r: "Node_insert i1 (i - nsize i0) v = Some (n', e)" "wf_node (d - 1) n'"
      "list_all (wf_node (d - 1)) (extras e)"
      "nlist n' @ nslist (extras e) = ins (i - nsize i0) v (nlist i1)" by blast
    have tot: "ins i v (nlist (Branch sz i0 i1 i2)) =
        nlist i0 @ nlist n' @ nslist (extras e) @ nslist (extras i2)"
      using c1 len r(4) by (simp add: l ins_append1 ins_append2 del: nlist.simps)
    have nsz: "nsize n' + nssize (extras e) = nsize i1 + 1"
      using arg_cong [OF r(4), of length] wf_node_size [OF r(2)] wf_nodes_size [OF r(3)] len
      by simp
    show ?thesis
    proof (cases e)
      case None
      with r d w0 w2 sz nsz tot show ?thesis using c1 by (cases i2) auto
    next
      case (Some x)
      with r d w0 w2 sz nsz tot show ?thesis using c1 by (cases i2) auto
    qed
  next
    case c2
    with i sz obtain n2 where n2: "i2 = Some n2" by (cases i2) auto
    with w2 have wn2: "wf_node (d - 1) n2" by simp
    have c2': "i - nsize i0 - nsize i1 < nsize n2" using c2 i sz n2 by simp
    from Branch.IH(3) [of n2, OF _ wn2 c2'] n2 obtain n' e where
      r: "Node_insert n2 (i - nsize i0 - nsize i1) v = Some (n', e)" "wf_node (d - 1) n'"
      "list_all (wf_node (d - 1)) (extras e)"
      "nlist n' @ nslist (extras e) = ins (i - nsize i0 - nsize i1) v (nlist n2)" by auto
    have tot: "ins i v (nlist (Branch sz i0 i1 i2)) =
        nlist i0 @ nlist i1 @ nlist n' @ nslist (extras e)"
      using c2 len r(4) n2 by (simp add: ins_append2)
    have nsz: "nsize n' + nssize (extras e) = nsize n2 + 1"
      using arg_cong [OF r(4), of length] wf_node_size [OF r(2)] wf_nodes_size [OF r(3)]
        wf_node_size [OF wn2] by simp
    show ?thesis
    proof (cases e)
      case None
      with r d w0 w1 sz nsz tot n2 show ?thesis using c2 by auto
    next
      case (Some x)
      with r d w0 w1 sz nsz tot n2 show ?thesis using c2 by auto
    qed
  qed
qed

lemma length_5_conv:
  "length xs = 5 \<Longrightarrow> \<exists>n0 n1 n2 n3 n4. xs = [n0, n1, n2, n3, n4]"
  by (auto simp: length_Suc_conv eval_nat_numeral)

lemma Digit_insert_ok:
  assumes "wf_digit d dg" "i < dsize dg"
  shows "\<exists>dg' e. Digit_insert side dg i v = Some (dg', e) \<and> wf_digit d dg' \<and>
           list_all (wf_node (d + 1)) (extras e) \<and>
           (if side then dlist dg' @ nslist (extras e) else nslist (extras e) @ dlist dg')
             = ins i v (dlist dg)"
proof -
  from digit_find_ok [OF assms] obtain pre x post j where
    f: "find_item (ditems dg) i = Some (pre, x, post, j)"
    "list_all (wf_node d) pre" "wf_node d x" "list_all (wf_node d) post"
    "length pre + length post + 1 = order dg" "j < nsize x" "i = nssize pre + j"
    "dlist dg = nslist pre @ nlist x @ nslist post"
    "dsize dg = nssize pre + nsize x + nssize post" by blast
  from wf_digit_items [OF assms(1)] have ord: "order dg \<le> 4" by simp
  from Node_insert_ok [OF f(3,6)] obtain n' e where
    r: "Node_insert x j v = Some (n', e)" "wf_node d n'" "list_all (wf_node d) (extras e)"
    "nlist n' @ nslist (extras e) = ins j v (nlist x)" by blast
  let ?nodes = "pre @ n' # extras e @ post"
  have wn: "list_all (wf_node d) ?nodes" using f(2,4) r(2,3) by simp
  have "ins i v (dlist dg) = nslist pre @ ins j v (nlist x) @ nslist post"
    using f(7,8) wf_nodes_size [OF f(2)] wf_node_size [OF f(3)] f(6)
    by (simp add: ins_append1 ins_append2)
  hence ls: "nslist ?nodes = ins i v (dlist dg)" using r(4) by simp
  have nsz: "nsize n' + nssize (extras e) = nsize x + 1"
    using arg_cong [OF r(4), of length] wf_node_size [OF r(2)] wf_nodes_size [OF r(3)]
      wf_node_size [OF f(3)] by simp
  have len: "length ?nodes = order dg + length (extras e)" using f(5) by simp
  show ?thesis
  proof (cases "length ?nodes < 5")
    case True
    hence "Digit_insert side dg i v = Some (Digit (dsize dg + 1) ?nodes, None)"
      using f(1) r(1) by (simp add: Digit_insert_def)
    moreover have "wf_digit d (Digit (dsize dg + 1) ?nodes)"
      using wn True f(9) nsz by simp
    ultimately show ?thesis using ls by simp
  next
    case False
    with len ord have l5: "length ?nodes = 5" by (cases e) simp_all
    hence l4: "length pre + (length (extras e) + length post) = 4" by simp
    from length_5_conv [OF l5] obtain n0 n1 n2 n3 n4 where
      ns: "?nodes = [n0, n1, n2, n3, n4]" by blast
    from wn ns have w: "wf_node d n0" "wf_node d n1" "wf_node d n2" "wf_node d n3" "wf_node d n4"
      by simp_all
    from ls ns have ls': "nlist n0 @ nlist n1 @ nlist n2 @ nlist n3 @ nlist n4 = ins i v (dlist dg)"
      by simp
    have "Digit_insert side dg i v =
        (if side then Some (Digit3 n0 n1 n2, Some (Node2 n3 n4))
         else Some (Digit3 n2 n3 n4, Some (Node2 n0 n1)))"
      using f(1) r(1) ns l4 by (simp add: Digit_insert_def)
    with w ls' show ?thesis by (cases side) simp_all
  qed
qed

lemma Tree_insert_ok:
  "wf_tree d t \<Longrightarrow> i < tsize t \<Longrightarrow>
   \<exists>t'. Tree_insert t i v = Some t' \<and> wf_tree d t' \<and> tlist t' = ins i v (tlist t)"
proof (induction t arbitrary: d i)
  case Empty
  then show ?case by simp
next
  case (Single n)
  from Single.prems have wn: "wf_node d n" and i: "i < nsize n" by simp_all
  from Node_insert_ok [OF wn i] obtain n' e where
    r: "Node_insert n i v = Some (n', e)" "wf_node d n'" "list_all (wf_node d) (extras e)"
    "nlist n' @ nslist (extras e) = ins i v (nlist n)" by blast
  have nsz: "nsize n' + nssize (extras e) = nsize n + 1"
    using arg_cong [OF r(4), of length] wf_node_size [OF r(2)] wf_nodes_size [OF r(3)]
      wf_node_size [OF wn] by simp
  from r nsz show ?case by (cases e) auto
next
  case (Deep sz l m r)
  from Deep.prems have wl: "wf_digit d l" and wm: "wf_tree (d + 1) m" and wr: "wf_digit d r"
    and sz: "sz = dsize l + tsize m + dsize r" and i: "i < dsize l + tsize m + dsize r"
    by simp_all
  note len = wf_digit_size [OF wl] wf_tree_size [OF wm] wf_digit_size [OF wr]
  consider (left) "i < dsize l" | (middle) "\<not> i < dsize l" "i - dsize l < tsize m"
    | (right) "\<not> i < dsize l" "\<not> i - dsize l < tsize m" by blast
  then show ?case
  proof cases
    case left
    from Digit_insert_ok [OF wl left, of True v] obtain dg e where
      r: "Digit_insert True l i v = Some (dg, e)" "wf_digit d dg"
      "list_all (wf_node (d + 1)) (extras e)"
      "dlist dg @ nslist (extras e) = ins i v (dlist l)" by auto
    have "\<exists>m'. (case e of None \<Rightarrow> Some m | Some x \<Rightarrow> Tree_push_front m x) = Some m' \<and>
               wf_tree (d + 1) m' \<and> tlist m' = nslist (extras e) @ tlist m"
    proof (cases e)
      case None
      with wm show ?thesis by simp
    next
      case (Some x)
      with r(3) Tree_push_front_ok [OF wm, of x] show ?thesis by auto
    qed
    then obtain m' where m': "(case e of None \<Rightarrow> Some m | Some x \<Rightarrow> Tree_push_front m x) = Some m'"
      "wf_tree (d + 1) m'" "tlist m' = nslist (extras e) @ tlist m" by blast
    have eq: "Tree_insert (Deep sz l m r) i v = Some (Deep (sz + 1) dg m' r)"
      using left r(1) m'(1) by simp
    have "ins i v (tlist (Deep sz l m r)) = ins i v (dlist l) @ tlist m @ dlist r"
      using left len by (simp add: ins_append1)
    hence ls: "dlist dg @ tlist m' @ dlist r = ins i v (tlist (Deep sz l m r))"
      using r(4) [symmetric] m'(3) by simp
    have "dsize dg + tsize m' + dsize r = sz + 1"
      using arg_cong [OF ls, of length] wf_digit_size [OF r(2)] wf_tree_size [OF m'(2)] len sz
      by simp
    hence "wf_tree d (Deep (sz + 1) dg m' r)" using r(2) m'(2) wr by simp
    moreover have "tlist (Deep (sz + 1) dg m' r) = ins i v (tlist (Deep sz l m r))"
      using ls by simp
    ultimately show ?thesis using eq by blast
  next
    case middle
    from Deep.IH(1) [OF wm middle(2)] obtain m' where
      m': "Tree_insert m (i - dsize l) v = Some m'" "wf_tree (d + 1) m'"
      "tlist m' = ins (i - dsize l) v (tlist m)" by blast
    have eq: "Tree_insert (Deep sz l m r) i v = Some (Deep (sz + 1) l m' r)"
      using middle m'(1) by simp
    have ls: "dlist l @ tlist m' @ dlist r = ins i v (tlist (Deep sz l m r))"
      using middle len m'(3) by (simp add: ins_append1 ins_append2)
    have "dsize l + tsize m' + dsize r = sz + 1"
      using arg_cong [OF ls, of length] wf_tree_size [OF m'(2)] len sz by simp
    hence "wf_tree d (Deep (sz + 1) l m' r)" using m'(2) wl wr by simp
    moreover have "tlist (Deep (sz + 1) l m' r) = ins i v (tlist (Deep sz l m r))"
      using ls by simp
    ultimately show ?thesis using eq by blast
  next
    case right
    let ?i = "i - dsize l - tsize m"
    from right i have ir: "?i < dsize r" by linarith
    from Digit_insert_ok [OF wr ir, of False v] obtain dg e where
      r: "Digit_insert False r ?i v = Some (dg, e)" "wf_digit d dg"
      "list_all (wf_node (d + 1)) (extras e)"
      "nslist (extras e) @ dlist dg = ins ?i v (dlist r)" by auto
    have "\<exists>m'. (case e of None \<Rightarrow> Some m | Some x \<Rightarrow> Tree_push_back m x) = Some m' \<and>
               wf_tree (d + 1) m' \<and> tlist m' = tlist m @ nslist (extras e)"
    proof (cases e)
      case None
      with wm show ?thesis by simp
    next
      case (Some x)
      with r(3) Tree_push_back_ok [OF wm, of x] show ?thesis by auto
    qed
    then obtain m' where m': "(case e of None \<Rightarrow> Some m | Some x \<Rightarrow> Tree_push_back m x) = Some m'"
      "wf_tree (d + 1) m'" "tlist m' = tlist m @ nslist (extras e)" by blast
    have eq: "Tree_insert (Deep sz l m r) i v = Some (Deep (sz + 1) l m' dg)"
      using right r(1) m'(1) by simp
    have "ins i v (tlist (Deep sz l m r)) = dlist l @ tlist m @ ins ?i v (dlist r)"
      using right len by (simp add: ins_append2)
    hence ls: "dlist l @ tlist m' @ dlist dg = ins i v (tlist (Deep sz l m r))"
      using r(4) m'(3) by simp
    have "dsize l + tsize m' + dsize dg = sz + 1"
      using arg_cong [OF ls, of length] wf_digit_size [OF r(2)] wf_tree_size [OF m'(2)] len sz
      by simp
    hence "wf_tree d (Deep (sz + 1) l m' dg)" using r(2) m'(2) wl by simp
    moreover have "tlist (Deep (sz + 1) l m' dg) = ins i v (tlist (Deep sz l m r))"
      using ls by simp
    ultimately show ?thesis using eq by blast
  qed
qed

lemma Sequence_insert_ok:
  assumes "wf_seq s" "i < tsize s"
  obtains t where "Sequence_insert s i v = Inr t" "wf_seq t"
    "tlist t = take i (tlist s) @ v # drop i (tlist s)"
  using assms Tree_insert_ok [of 0 s i v]
  by (auto simp: wf_seq_def Sequence_insert_def ins_def)

text \<open>
  \<^bold>\<open>C3.\<close> The \<open>insert\<close> method of the Python class never raises on a sequence: a negative
  index counts from the end, the index is then clamped into \<open>[0, n]\<close>, and the value
  is put in front of the element at that position.  In particular \<open>insert(n, v)\<close> is
  \<open>push_back(v)\<close>, and \<open>insert(0, v)\<close> on the empty sequence is the one-element
  sequence.
\<close>

theorem py_insert_clamps:
  assumes "wf_seq s"
  shows "(\<exists>t. py_insert s i v = Inr t \<and> wf_seq t \<and>
            tlist t =
              (let n = int (length (tlist s));
                   k = nat (max 0 (min n (if i < 0 then i + n else i)))
               in take k (tlist s) @ v # drop k (tlist s))) \<and>
         py_insert s (int (tsize s)) v = Sequence_push_back s v \<and>
         py_insert Empty 0 v = Inr (Single (Leaf v))"
proof -
  let ?n = "int (length (tlist s))"
  let ?i = "if i < 0 then i + ?n else i"
  let ?k = "nat (max 0 (min ?n ?i))"
  have n: "tsize s = length (tlist s)" by (rule wf_seq_size [OF assms])
  have unfold: "py_insert s i v =
      (if ?i < 0 then Sequence_push_front s v
       else if ?n \<le> ?i then Sequence_push_back s v
       else Sequence_insert s (nat ?i) v)"
    using n by (simp add: py_insert_def Let_def)
  have "\<exists>t. py_insert s i v = Inr t \<and> wf_seq t \<and>
            tlist t = take ?k (tlist s) @ v # drop ?k (tlist s)"
  proof -
    consider (below) "?i < 0" | (beyond) "\<not> ?i < 0" "?n \<le> ?i"
      | (inner) "\<not> ?i < 0" "\<not> ?n \<le> ?i"
      by blast
    then show ?thesis
    proof cases
      case below
      from Sequence_push_front_ok [OF assms, of v] obtain t where
        t: "Sequence_push_front s v = Inr t" "wf_seq t" "tlist t = v # tlist s" .
      have p: "py_insert s i v = Inr t" by (simp only: unfold below if_True t(1))
      have k: "?k = 0" using below by (auto simp: max_def min_def)
      have "tlist t = take 0 (tlist s) @ v # drop 0 (tlist s)" using t(3) by simp
      thus ?thesis unfolding k using p t(2) by blast
    next
      case beyond
      from Sequence_push_back_ok [OF assms, of v] obtain t where
        t: "Sequence_push_back s v = Inr t" "wf_seq t" "tlist t = tlist s @ [v]" .
      have p: "py_insert s i v = Inr t" by (simp only: unfold beyond if_True if_False t(1))
      have k: "?k = length (tlist s)" using beyond by (auto simp: max_def min_def)
      have "tlist t = take (length (tlist s)) (tlist s) @ v # drop (length (tlist s)) (tlist s)"
        using t(3) by simp
      thus ?thesis unfolding k using p t(2) by blast
    next
      case inner
      hence lt: "nat ?i < tsize s" using n by (auto split: if_splits)
      from Sequence_insert_ok [OF assms lt, of v] obtain t where
        t: "Sequence_insert s (nat ?i) v = Inr t" "wf_seq t"
        "tlist t = take (nat ?i) (tlist s) @ v # drop (nat ?i) (tlist s)" .
      have p: "py_insert s i v = Inr t" by (simp only: unfold inner if_False t(1))
      have k: "?k = nat ?i" using inner by (auto simp: max_def min_def)
      show ?thesis unfolding k using p t(2,3) by blast
    qed
  qed
  moreover have "py_insert s (int (tsize s)) v = Sequence_push_back s v"
    by (simp add: py_insert_def)
  moreover have "py_insert Empty 0 v = Inr (Single (Leaf v))"
    by (simp add: py_insert_def Sequence_push_back_def)
  ultimately show ?thesis unfolding Let_def by blast
qed

theorem py_insert_clamps_witness:
  "wf_seq (Deep 3 (Digit 2 [Leaf (1::nat), Leaf 2]) Empty (Digit 1 [Leaf 3])) \<and>
   (\<exists>t. py_insert (Deep 3 (Digit 2 [Leaf (1::nat), Leaf 2]) Empty (Digit 1 [Leaf 3])) (- 10) 0
          = Inr t \<and> tlist t = [0, 1, 2, 3]) \<and>
   (\<exists>t. py_insert (Deep 3 (Digit 2 [Leaf (1::nat), Leaf 2]) Empty (Digit 1 [Leaf 3])) 10 0
          = Inr t \<and> tlist t = [1, 2, 3, 0])"
  using py_insert_clamps [of "Deep 3 (Digit 2 [Leaf (1::nat), Leaf 2]) Empty (Digit 1 [Leaf 3])" "- 10" 0]
    py_insert_clamps [of "Deep 3 (Digit 2 [Leaf (1::nat), Leaf 2]) Empty (Digit 1 [Leaf 3])" 10 0]
  by (auto simp: wf_seq_def)

subsection \<open>Erasure\<close>

text \<open>The list \<open>xs\<close> without its element at position \<open>i\<close>.\<close>

definition del :: "nat \<Rightarrow> 'a list \<Rightarrow> 'a list" where
  "del i xs = take i xs @ drop (Suc i) xs"

lemma del_append1: "i < length xs \<Longrightarrow> del i (xs @ ys) = del i xs @ ys"
  by (simp add: del_def)

lemma del_append2: "length xs \<le> i \<Longrightarrow> del i (xs @ ys) = xs @ del (i - length xs) ys"
  by (simp add: del_def Suc_diff_le)

lemma length_del: "i < length xs \<Longrightarrow> Suc (length (del i xs)) = length xs"
  by (simp add: del_def)

lemma del_ins [simp]: "i \<le> length xs \<Longrightarrow> del i (ins i v xs) = xs"
  by (simp add: del_def ins_def min_def)

text \<open>
  What an erasure leaves of a node of depth \<open>d\<close> that is no longer full: nothing of a
  value, and of a branch its only remaining child.
\<close>

definition partial :: "nat \<Rightarrow> 'a node option \<Rightarrow> bool" where
  "partial d r = (case r of None \<Rightarrow> d = 0 | Some p \<Rightarrow> 0 < d \<and> wf_node (d - 1) p)"

lemma partial_simps [simp]:
  "partial d None = (d = 0)" "partial d (Some p) = (0 < d \<and> wf_node (d - 1) p)"
  by (simp_all add: partial_def)

lemma wf_node_Suc:
  assumes "wf_node (Suc c) n"
  obtains sz i0 i1 i2 where "n = Branch sz i0 i1 i2" "wf_node c i0" "wf_node c i1"
    "list_all (wf_node c) (extras i2)" "sz = nsize i0 + nsize i1 + nssize (extras i2)"
    "nlist n = nlist i0 @ nlist i1 @ nslist (extras i2)"
proof (cases n)
  case (Leaf v)
  with assms show thesis by simp
next
  case (Branch sz i0 i1 i2)
  with assms that [of sz i0 i1 i2] show thesis by (cases i2) auto
qed

lemma Node_merge_left_ok:
  assumes "wf_node c node" "left = None \<or> partial c left"
  shows "\<exists>m e. Node_merge_left left node = Some (m, e) \<and> wf_node c m \<and>
               list_all (wf_node c) (extras e) \<and>
               nlist m @ nslist (extras e) = nslist (extras left) @ nlist node"
proof (cases left)
  case None
  with assms show ?thesis by simp
next
  case (Some p)
  with assms(2) obtain c' where c: "c = Suc c'" and p: "wf_node c' p" by (cases c) auto
  from assms(1) c obtain sz i0 i1 i2 where n: "node = Branch sz i0 i1 i2" "wf_node c' i0"
    "wf_node c' i1" "list_all (wf_node c') (extras i2)"
    "sz = nsize i0 + nsize i1 + nssize (extras i2)" by (auto elim: wf_node_Suc)
  with Some c p show ?thesis by (cases i2) auto
qed

lemma Node_merge_right_ok:
  assumes "wf_node c node" "right = None \<or> partial c right"
  shows "\<exists>m e. Node_merge_right node right = Some (m, e) \<and> wf_node c m \<and>
               list_all (wf_node c) (extras e) \<and>
               nlist m @ nslist (extras e) = nlist node @ nslist (extras right)"
proof (cases right)
  case None
  with assms show ?thesis by (cases node) simp_all
next
  case (Some p)
  with assms(2) obtain c' where c: "c = Suc c'" and p: "wf_node c' p" by (cases c) auto
  from assms(1) c obtain sz i0 i1 i2 where n: "node = Branch sz i0 i1 i2" "wf_node c' i0"
    "wf_node c' i1" "list_all (wf_node c') (extras i2)"
    "sz = nsize i0 + nsize i1 + nssize (extras i2)" by (auto elim: wf_node_Suc)
  with Some c p show ?thesis by (cases i2) auto
qed

lemma Node_meld_right_ok:
  assumes "wf_node c m" "list_all (wf_node c) (extras e)" "list_all (wf_node c) (extras n)"
  shows "\<exists>f x. Node_meld_right (m, e) n = (f, x) \<and>
               nlist x = nlist m @ nslist (extras e) @ nslist (extras n) \<and>
               (if f then wf_node (Suc c) x else wf_node c x)"
  using assms by (cases e; cases n) auto

lemma Node_meld_left_ok:
  assumes "wf_node c m" "list_all (wf_node c) (extras e)" "list_all (wf_node c) (extras n)"
  shows "\<exists>f x. Node_meld_left n (m, e) = (f, x) \<and>
               nlist x = nslist (extras n) @ nlist m @ nslist (extras e) \<and>
               (if f then wf_node (Suc c) x else wf_node c x)"
  using assms by (cases e; cases n) auto

lemma Node_erase_ok:
  "wf_node d n \<Longrightarrow> i < nsize n \<Longrightarrow>
   \<exists>full r. Node_erase n i = Some (full, r) \<and> nslist (extras r) = del i (nlist n) \<and>
            (if full then \<exists>n'. r = Some n' \<and> wf_node d n' else partial d r)"
proof (induction n arbitrary: d i)
  case (Leaf u)
  then show ?case by (auto simp: del_def)
next
  case (Branch sz i0 i1 i2)
  from Branch.prems(1) obtain c where d: "d = Suc c" by (cases d) auto
  from Branch.prems d have w0: "wf_node c i0" and w1: "wf_node c i1"
    and w2: "list_all (wf_node c) (extras i2)"
    and sz: "sz = nsize i0 + nsize i1 + nssize (extras i2)" and i: "i < sz"
    by (auto split: option.splits)
  note len = wf_node_size [OF w0] wf_node_size [OF w1]
  have l: "nlist (Branch sz i0 i1 i2) = nlist i0 @ nlist i1 @ nslist (extras i2)"
    by (cases i2) simp_all
  consider (c0) "i < nsize i0" | (c1) "\<not> i < nsize i0" "i - nsize i0 < nsize i1"
    | (c2) "\<not> i < nsize i0" "\<not> i - nsize i0 < nsize i1" by blast
  then show ?case
  proof cases
    case c0
    from Branch.IH(1) [OF w0 c0] obtain full r where
      r: "Node_erase i0 i = Some (full, r)" "nslist (extras r) = del i (nlist i0)"
      "if full then \<exists>n'. r = Some n' \<and> wf_node c n' else partial c r" by blast
    have tot: "del i (nlist (Branch sz i0 i1 i2)) =
        nslist (extras r) @ nlist i1 @ nslist (extras i2)"
      using c0 len r(2) by (simp add: l del_append1 del: nlist.simps)
    show ?thesis
    proof (cases full)
      case True
      with r(3) obtain n' where n': "r = Some n'" "wf_node c n'" by auto
      have "Suc (nsize n') = nsize i0"
        using length_del [of i "nlist i0"] r(2) n' c0 len wf_node_size [OF n'(2)] by simp
      hence "sz - 1 = nsize n' + nsize i1 + nssize (extras i2)" using sz by simp
      hence W: "wf_node d (Branch (sz - 1) n' i1 i2)"
        using d n'(2) w1 w2 by (cases i2) simp_all
      have E: "Node_erase (Branch sz i0 i1 i2) i = Some (True, Some (Branch (sz - 1) n' i1 i2))"
        using c0 r(1) True n'(1) by simp
      have L: "nlist (Branch (sz - 1) n' i1 i2) = del i (nlist (Branch sz i0 i1 i2))"
        unfolding tot using n'(1) by (cases i2) simp_all
      show ?thesis unfolding E using W L by (auto simp del: nlist.simps wf_node.simps)
    next
      case False
      with r(3) have "partial c r" by simp
      from Node_merge_left_ok [OF w1 disjI2, OF this] obtain m e where
        m: "Node_merge_left r i1 = Some (m, e)" "wf_node c m" "list_all (wf_node c) (extras e)"
        "nlist m @ nslist (extras e) = nslist (extras r) @ nlist i1" by blast
      from Node_meld_right_ok [OF m(2,3) w2] obtain f x where
        x: "Node_meld_right (m, e) i2 = (f, x)"
        "nlist x = nlist m @ nslist (extras e) @ nslist (extras i2)"
        "if f then wf_node (Suc c) x else wf_node c x" by blast
      have E: "Node_erase (Branch sz i0 i1 i2) i = Some (f, Some x)"
        using c0 r(1) False m(1) x(1) by simp
      have L: "nlist x = del i (nlist (Branch sz i0 i1 i2))"
        unfolding tot using x(2) m(4) by simp
      show ?thesis unfolding E using L x(3) d by (auto simp del: nlist.simps)
    qed
  next
    case c1
    from Branch.IH(2) [OF w1 c1(2)] obtain full r where
      r: "Node_erase i1 (i - nsize i0) = Some (full, r)"
      "nslist (extras r) = del (i - nsize i0) (nlist i1)"
      "if full then \<exists>n'. r = Some n' \<and> wf_node c n' else partial c r" by blast
    have tot: "del i (nlist (Branch sz i0 i1 i2)) =
        nlist i0 @ nslist (extras r) @ nslist (extras i2)"
      using c1 len r(2) by (simp add: l del_append1 del_append2 del: nlist.simps)
    show ?thesis
    proof (cases full)
      case True
      with r(3) obtain n' where n': "r = Some n'" "wf_node c n'" by auto
      have "Suc (nsize n') = nsize i1"
        using length_del [of "i - nsize i0" "nlist i1"] r(2) n' c1 len wf_node_size [OF n'(2)]
        by simp
      hence "sz - 1 = nsize i0 + nsize n' + nssize (extras i2)" using sz by simp
      hence W: "wf_node d (Branch (sz - 1) i0 n' i2)"
        using d n'(2) w0 w2 by (cases i2) simp_all
      have E: "Node_erase (Branch sz i0 i1 i2) i = Some (True, Some (Branch (sz - 1) i0 n' i2))"
        using c1 r(1) True n'(1) by simp
      have L: "nlist (Branch (sz - 1) i0 n' i2) = del i (nlist (Branch sz i0 i1 i2))"
        unfolding tot using n'(1) by (cases i2) simp_all
      show ?thesis unfolding E using W L by (auto simp del: nlist.simps wf_node.simps)
    next
      case False
      with r(3) have "partial c r" by simp
      from Node_merge_right_ok [OF w0 disjI2, OF this] obtain m e where
        m: "Node_merge_right i0 r = Some (m, e)" "wf_node c m" "list_all (wf_node c) (extras e)"
        "nlist m @ nslist (extras e) = nlist i0 @ nslist (extras r)" by blast
      from Node_meld_right_ok [OF m(2,3) w2] obtain f x where
        x: "Node_meld_right (m, e) i2 = (f, x)"
        "nlist x = nlist m @ nslist (extras e) @ nslist (extras i2)"
        "if f then wf_node (Suc c) x else wf_node c x" by blast
      have E: "Node_erase (Branch sz i0 i1 i2) i = Some (f, Some x)"
        using c1 r(1) False m(1) x(1) by simp
      have L: "nlist x = del i (nlist (Branch sz i0 i1 i2))"
        unfolding tot using x(2) m(4) [symmetric] by simp
      show ?thesis unfolding E using L x(3) d by (auto simp del: nlist.simps)
    qed
  next
    case c2
    with i sz obtain n2 where n2: "i2 = Some n2" by (cases i2) auto
    with w2 have wn2: "wf_node c n2" by simp
    have c2': "i - nsize i0 - nsize i1 < nsize n2" using c2 i sz n2 by simp
    from Branch.IH(3) [of n2, OF _ wn2 c2'] n2 obtain full r where
      r: "Node_erase n2 (i - nsize i0 - nsize i1) = Some (full, r)"
      "nslist (extras r) = del (i - nsize i0 - nsize i1) (nlist n2)"
      "if full then \<exists>n'. r = Some n' \<and> wf_node c n' else partial c r" by auto
    have tot: "del i (nlist (Branch sz i0 i1 i2)) = nlist i0 @ nlist i1 @ nslist (extras r)"
      using c2 len r(2) n2 by (simp add: del_append2)
    show ?thesis
    proof (cases full)
      case True
      with r(3) obtain n' where n': "r = Some n'" "wf_node c n'" by auto
      have "Suc (nsize n') = nsize n2"
        using length_del [of "i - nsize i0 - nsize i1" "nlist n2"] r(2) n' c2'
          wf_node_size [OF wn2] wf_node_size [OF n'(2)]
        by simp
      hence "sz - 1 = nsize i0 + nsize i1 + nsize n'" using sz n2 by simp
      hence W: "wf_node d (Branch (sz - 1) i0 i1 (Some n'))"
        using d n'(2) w0 w1 by simp
      have E: "Node_erase (Branch sz i0 i1 i2) i = Some (True, Some (Branch (sz - 1) i0 i1 (Some n')))"
        using c2 r(1) True n'(1) n2 by simp
      have L: "nlist (Branch (sz - 1) i0 i1 (Some n')) = del i (nlist (Branch sz i0 i1 i2))"
        unfolding tot using n'(1) by simp
      show ?thesis unfolding E using W L by (auto simp del: nlist.simps wf_node.simps)
    next
      case False
      with r(3) have "partial c r" by simp
      from Node_merge_right_ok [OF w1 disjI2, OF this] obtain m e where
        m: "Node_merge_right i1 r = Some (m, e)" "wf_node c m" "list_all (wf_node c) (extras e)"
        "nlist m @ nslist (extras e) = nlist i1 @ nslist (extras r)" by blast
      have "list_all (wf_node c) (extras (Some i0))" using w0 by simp
      from Node_meld_left_ok [OF m(2,3) this] obtain f x where
        x: "Node_meld_left (Some i0) (m, e) = (f, x)"
        "nlist x = nslist (extras (Some i0)) @ nlist m @ nslist (extras e)"
        "if f then wf_node (Suc c) x else wf_node c x" by blast
      have E: "Node_erase (Branch sz i0 i1 i2) i = Some (f, Some x)"
        using c2 r(1) False m(1) x(1) n2 by simp
      have L: "nlist x = del i (nlist (Branch sz i0 i1 i2))"
        unfolding tot using x(2) m(4) by simp
      show ?thesis unfolding E using L x(3) d by (auto simp del: nlist.simps)
    qed
  qed
qed

lemma Digit_erase_ok:
  assumes "wf_digit d dg" "i < dsize dg"
  shows "\<exists>res. Digit_erase dg i = Some res \<and>
           (case res of
              Inr dg' \<Rightarrow> wf_digit d dg' \<and> dlist dg' = del i (dlist dg)
            | Inl r \<Rightarrow> order dg = 1 \<and> partial d r \<and> nslist (extras r) = del i (dlist dg))"
proof -
  from digit_find_ok [OF assms] obtain pre x post j where
    f: "find_item (ditems dg) i = Some (pre, x, post, j)"
    "list_all (wf_node d) pre" "wf_node d x" "list_all (wf_node d) post"
    "length pre + length post + 1 = order dg" "j < nsize x" "i = nssize pre + j"
    "dlist dg = nslist pre @ nlist x @ nslist post" by blast
  from wf_digit_items [OF assms(1)] have ord: "order dg \<le> 4" by simp
  from Node_erase_ok [OF f(3,6)] obtain full r where
    r: "Node_erase x j = Some (full, r)" "nslist (extras r) = del j (nlist x)"
    "if full then \<exists>n'. r = Some n' \<and> wf_node d n' else partial d r" by blast
  have tot: "del i (dlist dg) = nslist pre @ nslist (extras r) @ nslist post"
    using f(6,7,8) r(2) wf_nodes_size [OF f(2)] wf_node_size [OF f(3)]
    by (simp add: del_append1 del_append2)
  have from_ok: "\<exists>dg'. Digit_from ns = Some dg' \<and> wf_digit d dg' \<and> dlist dg' = nslist ns"
    if "list_all (wf_node d) ns" "1 \<le> length ns" "length ns \<le> 4" for ns
    using Digit_from_ok [OF that(2,3)] that by (cases ns) simp_all
  show ?thesis
  proof (cases full)
    case True
    with r(3) obtain n' where n': "r = Some n'" "wf_node d n'" by auto
    have "list_all (wf_node d) (pre @ n' # post)" "1 \<le> length (pre @ n' # post)"
      "length (pre @ n' # post) \<le> 4" using f(2,4,5) n'(2) ord by simp_all
    from from_ok [OF this] obtain dg' where
      dg': "Digit_from (pre @ n' # post) = Some dg'" "wf_digit d dg'"
      "dlist dg' = nslist (pre @ n' # post)" by blast
    have E: "Digit_erase dg i = Some (Inr dg')"
      using f(1) r(1) True n'(1) dg'(1) by (simp add: Digit_erase_def)
    show ?thesis unfolding E tot using dg'(2,3) n'(1) by simp
  next
    case False
    with r(3) have pr: "partial d r" by simp
    show ?thesis
    proof (cases "order dg = 1")
      case True
      with f(5) have "pre = []" "post = []" by simp_all
      moreover have E: "Digit_erase dg i = Some (Inl r)"
        using f(1) r(1) False True by (simp add: Digit_erase_def)
      ultimately show ?thesis unfolding E tot using True pr by simp
    next
      case o: False
      show ?thesis
      proof (cases post)
        case Nil
        with f(5) o have "pre \<noteq> []" by auto
        then obtain ps p where pre: "pre = ps @ [p]" by (cases pre rule: rev_cases) auto
        with f(2) have wp: "wf_node d p" "list_all (wf_node d) ps" by simp_all
        from Node_merge_right_ok [OF wp(1) disjI2, OF pr] obtain m e where
          m: "Node_merge_right p r = Some (m, e)" "wf_node d m" "list_all (wf_node d) (extras e)"
          "nlist m @ nslist (extras e) = nlist p @ nslist (extras r)" by blast
        have "length (extras e) \<le> 1" by (cases e) simp_all
        hence "list_all (wf_node d) (ps @ m # extras e)" "1 \<le> length (ps @ m # extras e)"
          "length (ps @ m # extras e) \<le> 4" using wp(2) m(2,3) f(5) ord pre Nil by simp_all
        from from_ok [OF this] obtain dg' where
          dg': "Digit_from (ps @ m # extras e) = Some dg'" "wf_digit d dg'"
          "dlist dg' = nslist (ps @ m # extras e)" by blast
        have E: "Digit_erase dg i = Some (Inr dg')"
          using f(1) r(1) False o Nil pre m(1) dg'(1) by (simp add: Digit_erase_def)
        show ?thesis unfolding E tot using dg'(2,3) m(4) pre Nil by simp
      next
        case (Cons q qs)
        with f(4) have wq: "wf_node d q" "list_all (wf_node d) qs" by simp_all
        from Node_merge_left_ok [OF wq(1) disjI2, OF pr] obtain m e where
          m: "Node_merge_left r q = Some (m, e)" "wf_node d m" "list_all (wf_node d) (extras e)"
          "nlist m @ nslist (extras e) = nslist (extras r) @ nlist q" by blast
        have "length (extras e) \<le> 1" by (cases e) simp_all
        hence "list_all (wf_node d) (pre @ m # extras e @ qs)"
          "1 \<le> length (pre @ m # extras e @ qs)"
          "length (pre @ m # extras e @ qs) \<le> 4" using wq(2) m(2,3) f(2,5) ord Cons by simp_all
        from from_ok [OF this] obtain dg' where
          dg': "Digit_from (pre @ m # extras e @ qs) = Some dg'" "wf_digit d dg'"
          "dlist dg' = nslist (pre @ m # extras e @ qs)" by blast
        have E: "Digit_erase dg i = Some (Inr dg')"
          using f(1) r(1) False o Cons m(1) dg'(1) by (simp add: Digit_erase_def)
        have "nslist (pre @ m # extras e @ qs) = nslist pre @ nslist (extras r) @ nslist post"
          using m(4) Cons by simp
        thus ?thesis unfolding E tot using dg'(2,3) by simp
      qed
    qed
  qed
qed

lemma Digit_merge_left_ok:
  assumes "wf_node (Suc d) head" "partial d node"
  shows "\<exists>dg. Digit_merge_left node head = Some dg \<and> wf_digit d dg \<and>
              dlist dg = nslist (extras node) @ nlist head"
proof -
  from assms(1) obtain sz b0 b1 b2 where h: "head = Branch sz b0 b1 b2" "wf_node d b0"
    "wf_node d b1" "list_all (wf_node d) (extras b2)"
    "sz = nsize b0 + nsize b1 + nssize (extras b2)" by (auto elim: wf_node_Suc)
  show ?thesis
  proof (cases node)
    case None
    with h show ?thesis by (cases b2) simp_all
  next
    case (Some p)
    from Node_merge_left_ok [OF h(2) disjI2, OF assms(2)] obtain m e where
      m: "Node_merge_left node b0 = Some (m, e)" "wf_node d m" "list_all (wf_node d) (extras e)"
      "nlist m @ nslist (extras e) = nslist (extras node) @ nlist b0" by blast
    have "\<exists>dg. Digit_merge_left node head = Some dg \<and> wf_digit d dg \<and>
              dlist dg = (nlist m @ nslist (extras e)) @ nlist b1 @ nslist (extras b2)"
      using Some h m(1,2,3) by (cases e; cases b2) simp_all
    thus ?thesis unfolding m(4) using h(1) by (cases b2) simp_all
  qed
qed

lemma Digit_merge_right_ok:
  assumes "wf_node (Suc d) lst" "partial d node"
  shows "\<exists>dg. Digit_merge_right lst node = Some dg \<and> wf_digit d dg \<and>
              dlist dg = nlist lst @ nslist (extras node)"
proof -
  from assms(1) obtain sz b0 b1 b2 where h: "lst = Branch sz b0 b1 b2" "wf_node d b0"
    "wf_node d b1" "list_all (wf_node d) (extras b2)"
    "sz = nsize b0 + nsize b1 + nssize (extras b2)" by (auto elim: wf_node_Suc)
  show ?thesis
  proof (cases node)
    case None
    with h show ?thesis by (cases b2) simp_all
  next
    case (Some p)
    show ?thesis
    proof (cases b2)
      case None
      from Node_merge_right_ok [OF h(3) disjI2, OF assms(2)] obtain m e where
        m: "Node_merge_right b1 node = Some (m, e)" "wf_node d m"
        "list_all (wf_node d) (extras e)"
        "nlist m @ nslist (extras e) = nlist b1 @ nslist (extras node)" by blast
      have "\<exists>dg. Digit_merge_right lst node = Some dg \<and> wf_digit d dg \<and>
              dlist dg = nlist b0 @ nlist m @ nslist (extras e)"
        using Some None h m(1,2,3) by (cases e) simp_all
      thus ?thesis unfolding m(4) using h(1) None by simp
    next
      case b2: (Some n2)
      with h(4) have "wf_node d n2" by simp
      from Node_merge_right_ok [OF this disjI2, OF assms(2)] obtain m e where
        m: "Node_merge_right n2 node = Some (m, e)" "wf_node d m"
        "list_all (wf_node d) (extras e)"
        "nlist m @ nslist (extras e) = nlist n2 @ nslist (extras node)" by blast
      have "\<exists>dg. Digit_merge_right lst node = Some dg \<and> wf_digit d dg \<and>
              dlist dg = nlist b0 @ nlist b1 @ nlist m @ nslist (extras e)"
        using Some b2 h m(1,2,3) by (cases e) simp_all
      thus ?thesis unfolding m(4) using h(1) b2 by simp
    qed
  qed
qed

lemma Digit_view_front_hd:
  assumes "wf_digit d dg" "ditems dg = r0 # rs" "rs \<noteq> []"
  shows "\<exists>dg'. Digit_view_front dg = Some (r0, dg') \<and> wf_digit d dg' \<and>
               dlist dg = nlist r0 @ dlist dg'"
  using assms by (cases rule: wf_digit_cases) auto

lemma Digit_view_back_last:
  assumes "wf_digit d dg" "rev (ditems dg) = lb # ls" "ls \<noteq> []"
  shows "\<exists>dg'. Digit_view_back dg = Some (dg', lb) \<and> wf_digit d dg' \<and>
               dlist dg = dlist dg' @ nlist lb"
  using assms by (cases rule: wf_digit_cases) auto

lemma Tree_from_merge_ok:
  assumes "wf_node d m" "list_all (wf_node d) (extras e)"
  shows "wf_tree d (Tree_from_merge (m, e)) \<and>
         tlist (Tree_from_merge (m, e)) = nlist m @ nslist (extras e)"
  using assms by (cases e) simp_all

lemma Digit_from_merge_ok:
  assumes "wf_node d m" "list_all (wf_node d) (extras e)"
  shows "wf_digit d (Digit_from_merge (m, e)) \<and>
         dlist (Digit_from_merge (m, e)) = nlist m @ nslist (extras e)"
  using assms by (cases e) simp_all

lemma Deep_del:
  assumes "wf_digit d a" "wf_tree (Suc d) b" "wf_digit d c"
    "dlist a @ tlist b @ dlist c = del i xs" "i < length xs" "length xs = sz"
  shows "wf_tree d (Deep (sz - 1) a b c) \<and> tlist (Deep (sz - 1) a b c) = del i xs"
proof -
  have "dsize a + tsize b + dsize c = length (del i xs)"
    using arg_cong [OF assms(4), of length] wf_digit_size [OF assms(1)]
      wf_tree_size [OF assms(2)] wf_digit_size [OF assms(3)] by simp
  also have "\<dots> = sz - 1" using length_del [OF assms(5)] assms(6) by simp
  finally show ?thesis using assms(1-4) by simp
qed

lemma Tree_erase_ok:
  "wf_tree d t \<Longrightarrow> i < tsize t \<Longrightarrow>
   \<exists>full t'. Tree_erase t i = Some (full, t') \<and> tlist t' = del i (tlist t) \<and>
             (if full then wf_tree d t'
              else (t' = Empty \<and> d = 0) \<or> (\<exists>p. t' = Single p \<and> 0 < d \<and> wf_node (d - 1) p))"
proof (induction t arbitrary: d i)
  case Empty
  then show ?case by simp
next
  case (Single n)
  from Single.prems have wn: "wf_node d n" and i: "i < nsize n" by simp_all
  from Node_erase_ok [OF wn i] obtain full r where
    r: "Node_erase n i = Some (full, r)" "nslist (extras r) = del i (nlist n)"
    "if full then \<exists>n'. r = Some n' \<and> wf_node d n' else partial d r" by blast
  show ?case
  proof (cases r)
    case None
    with r have E: "Tree_erase (Single n) i = Some (False, Empty)" by simp
    from None r(3) have "\<not> full" "d = 0" by (auto split: if_splits)
    with None r(2) show ?thesis unfolding E by auto
  next
    case (Some e)
    with r have E: "Tree_erase (Single n) i = Some (full, Single e)" by simp
    from Some r(2,3) show ?thesis unfolding E by (cases full) auto
  qed
next
  case (Deep sz l m r)
  from Deep.prems have wl: "wf_digit d l" and wm: "wf_tree (d + 1) m" and wr: "wf_digit d r"
    and sz: "sz = dsize l + tsize m + dsize r" and i: "i < dsize l + tsize m + dsize r"
    by simp_all
  note len = wf_digit_size [OF wl] wf_tree_size [OF wm] wf_digit_size [OF wr]
  let ?xs = "tlist (Deep sz l m r)"
  have xs: "i < length ?xs" "length ?xs = sz" using i sz len by simp_all
  have fin: "\<exists>full t'. Tree_erase (Deep sz l m r) i = Some (full, t') \<and>
             tlist t' = del i ?xs \<and>
             (if full then wf_tree d t'
              else (t' = Empty \<and> d = 0) \<or> (\<exists>p. t' = Single p \<and> 0 < d \<and> wf_node (d - 1) p))"
    if "Tree_erase (Deep sz l m r) i = Some (True, t')" "wf_tree d t'" "tlist t' = del i ?xs"
    for t'
    using that by (auto simp del: Tree_erase.simps tlist.simps)
  have deep: "\<exists>full t'. Tree_erase (Deep sz l m r) i = Some (full, t') \<and>
             tlist t' = del i ?xs \<and>
             (if full then wf_tree d t'
              else (t' = Empty \<and> d = 0) \<or> (\<exists>p. t' = Single p \<and> 0 < d \<and> wf_node (d - 1) p))"
    if "Tree_erase (Deep sz l m r) i = Some (True, Deep (sz - 1) a b c)"
      "wf_digit d a" "wf_tree (Suc d) b" "wf_digit d c" "dlist a @ tlist b @ dlist c = del i ?xs"
    for a b c
    using fin [OF that(1)] Deep_del [OF that(2-5) xs] by blast
  consider (left) "i < dsize l" | (middle) "\<not> i < dsize l" "i - dsize l < tsize m"
    | (right) "\<not> i < dsize l" "\<not> i - dsize l < tsize m" by blast
  then show ?case
  proof cases
    case left
    have tot: "del i ?xs = del i (dlist l) @ tlist m @ dlist r"
      using left len by (simp add: del_append1)
    from Digit_erase_ok [OF wl left] obtain res where
      res: "Digit_erase l i = Some res"
      "case res of Inr dg' \<Rightarrow> wf_digit d dg' \<and> dlist dg' = del i (dlist l)
       | Inl r \<Rightarrow> order l = 1 \<and> partial d r \<and> nslist (extras r) = del i (dlist l)" by blast
    show ?thesis
    proof (cases res)
      case (Inr dg')
      with res(2) have dg': "wf_digit d dg'" "dlist dg' = del i (dlist l)" by simp_all
      have "Tree_erase (Deep sz l m r) i = Some (True, Deep (sz - 1) dg' m r)"
        using left res(1) Inr by simp
      from deep [OF this dg'(1) _ wr] wm dg'(2) tot show ?thesis by simp
    next
      case (Inl node)
      with res(2) have node: "order l = 1" "partial d node"
        "nslist (extras node) = del i (dlist l)" by simp_all
      show ?thesis
      proof (cases "m = Empty")
        case False
        from Tree_view_front_ok [OF wm False] obtain head tail where
          v: "Tree_view_front m = Some (head, tail)" "wf_node (d + 1) head"
          "wf_tree (d + 1) tail" "tlist m = nlist head @ tlist tail" by blast
        from Digit_merge_left_ok [OF _ node(2), of head] v(2) obtain dg where
          dg: "Digit_merge_left node head = Some dg" "wf_digit d dg"
          "dlist dg = nslist (extras node) @ nlist head" by auto
        have "Tree_erase (Deep sz l m r) i = Some (True, Deep (sz - 1) dg tail r)"
          using left res(1) Inl False v(1) dg(1) by simp
        from deep [OF this dg(2) _ wr] v(3,4) dg(3) node(3) tot show ?thesis by simp
      next
        case True
        from wf_digit_items [OF wr] obtain r0 rs where rr: "ditems r = r0 # rs"
          by (cases "ditems r") auto
        with wf_digit_items [OF wr] have w0: "wf_node d r0" by simp
        from Node_merge_left_ok [OF w0 disjI2, OF node(2)] obtain mm e where
          mm: "Node_merge_left node r0 = Some (mm, e)" "wf_node d mm"
          "list_all (wf_node d) (extras e)"
          "nlist mm @ nslist (extras e) = nslist (extras node) @ nlist r0" by blast
        show ?thesis
        proof (cases "rs = []")
          case rs: True
          have E: "Tree_erase (Deep sz l m r) i = Some (True, Tree_from_merge (mm, e))"
            using left res(1) Inl True rr rs mm(1) by simp
          have "dlist r = nlist r0" using rr rs dlist_ditems [of r] by simp
          with Tree_from_merge_ok [OF mm(2,3)] mm(4) node(3) tot True
          show ?thesis by (intro fin [OF E]) simp_all
        next
          case rs: False
          from Digit_view_front_hd [OF wr rr rs] obtain r' where
            r': "Digit_view_front r = Some (r0, r')" "wf_digit d r'"
            "dlist r = nlist r0 @ dlist r'" by blast
          have "Tree_erase (Deep sz l m r) i =
              Some (True, Deep (sz - 1) (Digit_from_merge (mm, e)) Empty r')"
            using left res(1) Inl True rr rs mm(1) r'(1) by simp
          from deep [OF this _ _ r'(2)] Digit_from_merge_ok [OF mm(2,3)] mm(4) node(3) tot True
            r'(3)
          show ?thesis by simp
        qed
      qed
    qed
  next
    case right
    let ?i = "i - dsize l - tsize m"
    from right i have ir: "?i < dsize r" by linarith
    have tot: "del i ?xs = dlist l @ tlist m @ del ?i (dlist r)"
      using right len by (simp add: del_append2)
    from Digit_erase_ok [OF wr ir] obtain res where
      res: "Digit_erase r ?i = Some res"
      "case res of Inr dg' \<Rightarrow> wf_digit d dg' \<and> dlist dg' = del ?i (dlist r)
       | Inl x \<Rightarrow> order r = 1 \<and> partial d x \<and> nslist (extras x) = del ?i (dlist r)" by blast
    show ?thesis
    proof (cases res)
      case (Inr dg')
      with res(2) have dg': "wf_digit d dg'" "dlist dg' = del ?i (dlist r)" by simp_all
      have "Tree_erase (Deep sz l m r) i = Some (True, Deep (sz - 1) l m dg')"
        using right res(1) Inr by simp
      from deep [OF this wl _ dg'(1)] wm dg'(2) tot show ?thesis by simp
    next
      case (Inl node)
      with res(2) have node: "order r = 1" "partial d node"
        "nslist (extras node) = del ?i (dlist r)" by simp_all
      show ?thesis
      proof (cases "m = Empty")
        case False
        from Tree_view_back_ok [OF wm False] obtain init lst where
          v: "Tree_view_back m = Some (init, lst)" "wf_node (d + 1) lst"
          "wf_tree (d + 1) init" "tlist m = tlist init @ nlist lst" by blast
        from Digit_merge_right_ok [OF _ node(2), of lst] v(2) obtain dg where
          dg: "Digit_merge_right lst node = Some dg" "wf_digit d dg"
          "dlist dg = nlist lst @ nslist (extras node)" by auto
        have "Tree_erase (Deep sz l m r) i = Some (True, Deep (sz - 1) l init dg)"
          using right res(1) Inl False v(1) dg(1) by simp
        from deep [OF this wl _ dg(2)] v(3,4) dg(3) node(3) tot show ?thesis by simp
      next
        case True
        from wf_digit_items [OF wl] obtain lb ls where ll: "rev (ditems l) = lb # ls"
          by (cases "rev (ditems l)") auto
        hence "ditems l = rev ls @ [lb]" by (simp add: rev_swap [symmetric])
        with wf_digit_items [OF wl] have w0: "wf_node d lb" by simp
        from Node_merge_right_ok [OF w0 disjI2, OF node(2)] obtain mm e where
          mm: "Node_merge_right lb node = Some (mm, e)" "wf_node d mm"
          "list_all (wf_node d) (extras e)"
          "nlist mm @ nslist (extras e) = nlist lb @ nslist (extras node)" by blast
        show ?thesis
        proof (cases "ls = []")
          case ls: True
          have E: "Tree_erase (Deep sz l m r) i = Some (True, Tree_from_merge (mm, e))"
            using right res(1) Inl True ll ls mm(1) by simp
          have "dlist l = nlist lb" using \<open>ditems l = rev ls @ [lb]\<close> ls dlist_ditems [of l]
            by simp
          with Tree_from_merge_ok [OF mm(2,3)] mm(4) node(3) tot True
          show ?thesis by (intro fin [OF E]) simp_all
        next
          case ls: False
          from Digit_view_back_last [OF wl ll ls] obtain l' where
            l': "Digit_view_back l = Some (l', lb)" "wf_digit d l'"
            "dlist l = dlist l' @ nlist lb" by blast
          have "Tree_erase (Deep sz l m r) i =
              Some (True, Deep (sz - 1) l' Empty (Digit_from_merge (mm, e)))"
            using right res(1) Inl True ll ls mm(1) l'(1) by simp
          from deep [OF this l'(2)] Digit_from_merge_ok [OF mm(2,3)] mm(4) node(3) tot True
            l'(3)
          show ?thesis by simp
        qed
      qed
    qed
  next
    case middle
    let ?i = "i - dsize l"
    have tot: "del i ?xs = dlist l @ del ?i (tlist m) @ dlist r"
      using middle len by (simp add: del_append1 del_append2)
    from Deep.IH(1) [OF wm middle(2)] obtain full meld where
      e: "Tree_erase m ?i = Some (full, meld)" "tlist meld = del ?i (tlist m)"
      "if full then wf_tree (d + 1) meld
       else (meld = Empty \<and> d + 1 = 0) \<or>
            (\<exists>p. meld = Single p \<and> 0 < d + 1 \<and> wf_node (d + 1 - 1) p)" by blast
    show ?thesis
    proof (cases full)
      case True
      with e(3) have wmeld: "wf_tree (Suc d) meld" by simp
      have "Tree_erase (Deep sz l m r) i = Some (True, Deep (sz - 1) l meld r)"
        using middle e(1) True by simp
      from deep [OF this wl wmeld wr] e(2) tot show ?thesis by simp
    next
      case False
      with e(3) obtain p where p: "meld = Single p" "wf_node d p" by auto
      from wl show ?thesis
      proof (cases rule: wf_digit_cases)
        case (4 l0 l1 l2 l3)
        have "Tree_erase (Deep sz l m r) i =
            Some (True, Deep (sz - 1) (Digit2 l0 l1) (Single (Node3 l2 l3 p)) r)"
          using middle e(1) False p(1) 4(1) by simp
        from deep [OF this _ _ wr] 4 p e(2) tot show ?thesis by simp
      next
        case (1 l0)
        have "Tree_erase (Deep sz l m r) i = Some (True, Deep (sz - 1) (Digit2 l0 p) Empty r)"
          using middle e(1) False p(1) 1(1) by simp
        from deep [OF this _ _ wr] 1 p e(2) tot show ?thesis by simp
      next
        case (2 l0 l1)
        have "Tree_erase (Deep sz l m r) i = Some (True, Deep (sz - 1) (Digit3 l0 l1 p) Empty r)"
          using middle e(1) False p(1) 2(1) by simp
        from deep [OF this _ _ wr] 2 p e(2) tot show ?thesis by simp
      next
        case (3 l0 l1 l2)
        have "Tree_erase (Deep sz l m r) i =
            Some (True, Deep (sz - 1) (Digit4 l0 l1 l2 p) Empty r)"
          using middle e(1) False p(1) 3(1) by simp
        from deep [OF this _ _ wr] 3 p e(2) tot show ?thesis by simp
      qed
    qed
  qed
qed

lemma Sequence_erase_ok:
  assumes "wf_seq s" "i < tsize s"
  obtains t where "Sequence_erase s i = Inr t" "wf_seq t"
    "tlist t = take i (tlist s) @ drop (Suc i) (tlist s)"
proof -
  from Tree_erase_ok [of 0 s i] assms obtain full t' where
    e: "Tree_erase s i = Some (full, t')" "tlist t' = del i (tlist s)"
    "if full then wf_tree 0 t' else (t' = Empty \<and> (0::nat) = 0) \<or>
       (\<exists>p. t' = Single p \<and> (0::nat) < 0 \<and> wf_node (0 - 1) p)"
    unfolding wf_seq_def by blast
  show thesis
  proof (cases full)
    case True
    with e assms(2) have "Sequence_erase s i = Inr t'" "wf_seq t'"
      by (simp_all add: Sequence_erase_def wf_seq_def)
    with e(2) that [of t'] show thesis by (simp add: del_def)
  next
    case False
    with e(3) have "t' = Empty" by simp
    with e False assms(2) have "Sequence_erase s i = Inr Empty" "tlist Empty = del i (tlist s)"
      by (simp_all add: Sequence_erase_def)
    with that [of Empty] show thesis by (simp add: del_def)
  qed
qed

text \<open>
  \<^bold>\<open>C5.\<close> Inserting a value at an index below the size and then erasing the element at
  that index gives a sequence equal, element by element, to the original one.
\<close>

theorem insert_erase_roundtrip:
  assumes "wf_seq s" "i < tsize s"
  shows "\<exists>t u. Sequence_insert s i v = Inr t \<and> Sequence_erase t i = Inr u \<and>
               Sequence_eq u s = Inr True \<and>
               tlist t = take i (tlist s) @ v # drop i (tlist s) \<and> tlist u = tlist s"
proof -
  from Sequence_insert_ok [OF assms] obtain t where
    t: "Sequence_insert s i v = Inr t" "wf_seq t"
    "tlist t = take i (tlist s) @ v # drop i (tlist s)" .
  have n: "i < length (tlist s)" using assms wf_seq_size by fastforce
  hence "i < tsize t" using wf_seq_size [OF t(2)] t(3) by simp
  from Sequence_erase_ok [OF t(2) this] obtain u where
    u: "Sequence_erase t i = Inr u" "wf_seq u"
    "tlist u = take i (tlist t) @ drop (Suc i) (tlist t)" .
  have "tlist u = tlist s" using u(3) t(3) n by (simp add: min_def)
  moreover from this have "Sequence_eq u s = Inr True" using u(2) assms(1)
    by (simp add: Sequence_eq_ok)
  ultimately show ?thesis using t u by blast
qed

theorem insert_erase_roundtrip_witness:
  "wf_seq (Deep 3 (Digit 2 [Leaf (1::nat), Leaf 2]) Empty (Digit 1 [Leaf 3])) \<and>
   (1::nat) < tsize (Deep 3 (Digit 2 [Leaf (1::nat), Leaf 2]) Empty (Digit 1 [Leaf 3])) \<and>
   (\<exists>t u. Sequence_insert (Deep 3 (Digit 2 [Leaf (1::nat), Leaf 2]) Empty (Digit 1 [Leaf 3])) 1 7
            = Inr t \<and> tlist t = [1, 7, 2, 3] \<and>
          Sequence_erase t 1 = Inr u \<and> tlist u = [1, 2, 3])"
  using insert_erase_roundtrip [of "Deep 3 (Digit 2 [Leaf (1::nat), Leaf 2]) Empty (Digit 1 [Leaf 3])" 1 7]
  by (auto simp: wf_seq_def)

section \<open>The slice adjustment\<close>

subsection \<open>Counting on the integers\<close>






subsection \<open>Reading 64-bit words as signed integers\<close>




lemma sint_0_T: "sint (0 :: T) = 0" by simp
lemma sint_m1_T: "sint (- 1 :: T) = - 1" by simp












subsection \<open>What the adjustment returns\<close>












end
